theory Spec2Isabelle
  imports Complex_Main "HOL-Library.Word"
begin

section \<open>The paint bucket of the canvas component: \<open>floodFill\<close> in src/src/index.js\<close>

text \<open>
  \<open>floodFill(ctx, x, y, fillColor)\<close> reads the drawing canvas into \<open>pixelData\<close>
  (\<open>width\<close>, \<open>height\<close> and a \<open>Uint32Array\<close> over the image bytes), works on that copy
  and writes it back with \<open>putImageData\<close> once its loop has ended. The seed coordinates
  are the results of \<open>Math.round\<close>, hence integers; \<open>fillColor\<close> is an element of a
  \<open>Uint32Array\<close>, hence a 32-bit word.
\<close>

record pixelData =
  width :: nat
  height :: nat
  data :: "32 word list"

text \<open>
  Reading a \<open>Uint32Array\<close> outside its range yields \<open>undefined\<close> (\<open>None\<close> here),
  and a write outside its range is ignored: a typed array never grows.
\<close>

definition readU32 :: "32 word list \<Rightarrow> int \<Rightarrow> int option" where
  "readU32 xs i = (if 0 \<le> i \<and> i < int (length xs) then Some (uint (xs ! nat i)) else None)"

definition writeU32 :: "32 word list \<Rightarrow> int \<Rightarrow> 32 word \<Rightarrow> 32 word list" where
  "writeU32 xs i v = (if 0 \<le> i \<and> i < int (length xs) then xs[nat i := v] else xs)"

text \<open>
  \<open>getPixel\<close>, lines 1100-1106: \<open>-1\<close> (the "impossible color") outside the bounds,
  the stored value otherwise.
\<close>

definition getPixel :: "pixelData \<Rightarrow> int \<Rightarrow> int \<Rightarrow> int option" where
  "getPixel pixelData x y =
     (if x < 0 \<or> y < 0 \<or> x \<ge> int (width pixelData) \<or> y \<ge> int (height pixelData)
      then Some (- 1)
      else readU32 (data pixelData) (y * int (width pixelData) + x))"

text \<open>
  The loop of lines 1133-1157. \<open>pixelsToCheck\<close> is a JavaScript array used as a stack
  that holds the two coordinates of a pixel in consecutive slots, always pushed and popped
  together; here it is a list of pairs whose head is the top of the stack. The first
  argument bounds the number of iterations: \<open>None\<close> says that the loop has not ended
  within that many iterations.
\<close>

fun floodFill_loop ::
  "nat \<Rightarrow> int option \<Rightarrow> 32 word \<Rightarrow> pixelData \<Rightarrow> (int \<times> int) list \<Rightarrow> pixelData option" where
  "floodFill_loop n targetColor fillColor pixelData [] = Some pixelData"
| "floodFill_loop 0 targetColor fillColor pixelData ((x, y) # pixelsToCheck) = None"
| "floodFill_loop (Suc n) targetColor fillColor pixelData ((x, y) # pixelsToCheck) =
     (if getPixel pixelData x y = targetColor
      then floodFill_loop n targetColor fillColor
             (pixelData\<lparr>data := writeU32 (data pixelData) (y * int (width pixelData) + x) fillColor\<rparr>)
             ((x, y - 1) # (x, y + 1) # (x - 1, y) # (x + 1, y) # pixelsToCheck)
      else floodFill_loop n targetColor fillColor pixelData pixelsToCheck)"

text \<open>
  One iteration of that loop, lines 1134-1156, for a stack whose top is \<open>p\<close> and whose
  rest is \<open>pixelsToCheck\<close>: the buffer and the stack after the iteration.
\<close>

definition floodFill_step ::
  "int option \<Rightarrow> 32 word \<Rightarrow> pixelData \<Rightarrow> int \<times> int \<Rightarrow> (int \<times> int) list \<Rightarrow> pixelData \<times> (int \<times> int) list" where
  "floodFill_step targetColor fillColor pixelData p pixelsToCheck =
     (case p of (x, y) \<Rightarrow>
        if getPixel pixelData x y = targetColor
        then (pixelData\<lparr>data := writeU32 (data pixelData) (y * int (width pixelData) + x) fillColor\<rparr>,
              (x, y - 1) # (x, y + 1) # (x - 1, y) # (x + 1, y) # pixelsToCheck)
        else (pixelData, pixelsToCheck))"

text \<open>
  \<open>floodFill\<close>, lines 1098-1163: the content of the canvas after the call. When the
  target colour is the fill colour nothing is written back and the canvas keeps its
  content.
\<close>

definition floodFill :: "nat \<Rightarrow> pixelData \<Rightarrow> int \<Rightarrow> int \<Rightarrow> 32 word \<Rightarrow> pixelData option" where
  "floodFill fuel pixelData x y fillColor =
     (let targetColor = getPixel pixelData x y
      in if targetColor \<noteq> Some (uint fillColor)
         then floodFill_loop fuel targetColor fillColor pixelData [(x, y)]
         else Some pixelData)"

subsection \<open>Vocabulary for the properties of the fill\<close>

definition inBounds :: "pixelData \<Rightarrow> int \<Rightarrow> int \<Rightarrow> bool" where
  "inBounds pd x y \<longleftrightarrow> 0 \<le> x \<and> x < int (width pd) \<and> 0 \<le> y \<and> y < int (height pd)"

definition wellFormed :: "pixelData \<Rightarrow> bool" where
  "wellFormed pd \<longleftrightarrow> length (data pd) = width pd * height pd"

definition pixelAt :: "pixelData \<Rightarrow> int \<Rightarrow> int \<Rightarrow> 32 word" where
  "pixelAt pd x y = data pd ! nat (y * int (width pd) + x)"

definition sameShape :: "pixelData \<Rightarrow> pixelData \<Rightarrow> bool" where
  "sameShape pd pd' \<longleftrightarrow>
     width pd' = width pd \<and> height pd' = height pd \<and> length (data pd') = length (data pd)"

definition adjacent4 :: "int \<times> int \<Rightarrow> int \<times> int \<Rightarrow> bool" where
  "adjacent4 p q \<longleftrightarrow>
     (fst q = fst p \<and> (snd q = snd p - 1 \<or> snd q = snd p + 1)) \<or>
     (snd q = snd p \<and> (fst q = fst p - 1 \<or> fst q = fst p + 1))"

text \<open>The pixels joined to the seed by a 4-connected path of pixels of colour \<open>S\<close>.\<close>

inductive reach :: "pixelData \<Rightarrow> 32 word \<Rightarrow> int \<times> int \<Rightarrow> int \<times> int \<Rightarrow> bool"
  for pd :: pixelData and S :: "32 word" and seed :: "int \<times> int" where
  reach_seed: "inBounds pd (fst seed) (snd seed) \<Longrightarrow> pixelAt pd (fst seed) (snd seed) = S
     \<Longrightarrow> reach pd S seed seed"
| reach_step: "reach pd S seed p \<Longrightarrow> adjacent4 p q \<Longrightarrow> inBounds pd (fst q) (snd q)
     \<Longrightarrow> pixelAt pd (fst q) (snd q) = S \<Longrightarrow> reach pd S seed q"

definition countColor :: "32 word \<Rightarrow> 32 word list \<Rightarrow> nat" where
  "countColor S xs = length (filter (\<lambda>v. v = S) xs)"

text \<open>
  The invariant of the loop for a fill that started at \<open>seed\<close> on the buffer \<open>pd0\<close>,
  whose seed colour is \<open>S\<close>: the shape is kept; a pixel was either left alone or was of
  colour \<open>S\<close>, is joined to the seed and now has colour \<open>c\<close>; the stack holds, of the
  pixels of colour \<open>S\<close>, only pixels joined to the seed; and every neighbour of colour
  \<open>S\<close> of a painted pixel is painted or on the stack.
\<close>

definition fillInv :: "pixelData \<Rightarrow> 32 word \<Rightarrow> 32 word \<Rightarrow> int \<times> int \<Rightarrow> pixelData \<Rightarrow> (int \<times> int) list \<Rightarrow> bool" where
  "fillInv pd0 S c seed pd st \<longleftrightarrow>
     sameShape pd0 pd \<and>
     (\<forall>x y. inBounds pd0 x y \<longrightarrow>
        pixelAt pd x y = pixelAt pd0 x y \<or>
        (pixelAt pd0 x y = S \<and> pixelAt pd x y = c \<and> reach pd0 S seed (x, y))) \<and>
     (\<forall>p \<in> set st. inBounds pd0 (fst p) (snd p) \<and> pixelAt pd0 (fst p) (snd p) = S \<longrightarrow> reach pd0 S seed p) \<and>
     (\<forall>p q. reach pd0 S seed p \<and> pixelAt pd (fst p) (snd p) = c \<and> adjacent4 p q \<and>
         inBounds pd0 (fst q) (snd q) \<and> pixelAt pd0 (fst q) (snd q) = S \<longrightarrow>
         pixelAt pd (fst q) (snd q) = c \<or> q \<in> set st) \<and>
     inBounds pd0 (fst seed) (snd seed) \<and>
     (pixelAt pd (fst seed) (snd seed) = c \<or> seed \<in> set st)"

definition fillResult :: "pixelData \<Rightarrow> 32 word \<Rightarrow> 32 word \<Rightarrow> int \<times> int \<Rightarrow> pixelData \<Rightarrow> bool" where
  "fillResult pd0 S c seed pd \<longleftrightarrow>
     sameShape pd0 pd \<and>
     (\<forall>x y. inBounds pd0 x y \<longrightarrow>
        pixelAt pd x y = (if reach pd0 S seed (x, y) then c else pixelAt pd0 x y))"

text \<open>
  A region in the sense of the maximality property: pixels of the buffer that all have the
  colour \<open>S\<close>, any two of them joined by a 4-connected path inside the region, and with
  no pixel of colour \<open>S\<close> next to the region outside it.
\<close>

definition region4 :: "pixelData \<Rightarrow> 32 word \<Rightarrow> (int \<times> int) set \<Rightarrow> bool" where
  "region4 pd S R \<longleftrightarrow>
     (\<forall>p \<in> R. inBounds pd (fst p) (snd p) \<and> pixelAt pd (fst p) (snd p) = S) \<and>
     (\<forall>p \<in> R. \<forall>q \<in> R. (p, q) \<in> {(a, b). a \<in> R \<and> b \<in> R \<and> adjacent4 a b}\<^sup>*) \<and>
     (\<forall>p \<in> R. \<forall>q. adjacent4 p q \<and> inBounds pd (fst q) (snd q) \<and> q \<notin> R
         \<longrightarrow> pixelAt pd (fst q) (snd q) \<noteq> S)"

text \<open>
  A canvas of one row of three white pixels (\<open>0xFFFFFFFF\<close>) for \<open>floodFill\<close> of
  index.js, and the same with the pixel in the middle red (\<open>0xFF0000FF\<close>).
\<close>

definition whiteRow :: pixelData where
  "whiteRow = \<lparr>width = 3, height = 1, data = [4294967295, 4294967295, 4294967295]\<rparr>"

definition whiteRowSeedPainted :: pixelData where
  "whiteRowSeedPainted = \<lparr>width = 3, height = 1, data = [4294967295, 4278190335, 4294967295]\<rparr>"

section \<open>The interaction state machine (interactionStateMachine.js, src/unnamed/part_000)\<close>

text \<open>
  Coordinates are JavaScript numbers; they are modelled as real numbers, so the rounding
  of floating-point arithmetic is not part of the model.
\<close>

text \<open>
  A division can leave the finite numbers: in JavaScript a quotient whose divisor is zero
  is \<open>Infinity\<close>, \<open>-Infinity\<close> or \<open>NaN\<close>, and these values go through the arithmetic
  that follows. The state machine divides by a value that can be zero in one place, the
  quotient of two distances in \<open>TouchScaleState\<close> (the baseline distance is zero when the
  two touches of the draw-start are at one point); that quotient and what is computed from
  it are values of \<open>jsNumber\<close>. The divisor is a square root, so a zero divisor is the
  positive zero and the sign of the quotient is the sign of the dividend.
\<close>

datatype jsNumber = Finite real | PosInfinity | NegInfinity | NaN

definition js_divide :: "real \<Rightarrow> real \<Rightarrow> jsNumber" where
  "js_divide a b =
     (if b \<noteq> 0 then Finite (a / b)
      else if 0 < a then PosInfinity
      else if a < 0 then NegInfinity
      else NaN)"

definition js_times :: "real \<Rightarrow> jsNumber \<Rightarrow> jsNumber" where
  "js_times a v =
     (case v of
        Finite b \<Rightarrow> Finite (a * b)
      | PosInfinity \<Rightarrow> (if 0 < a then PosInfinity else if a < 0 then NegInfinity else NaN)
      | NegInfinity \<Rightarrow> (if 0 < a then NegInfinity else if a < 0 then PosInfinity else NaN)
      | NaN \<Rightarrow> NaN)"

definition js_minus :: "jsNumber \<Rightarrow> real \<Rightarrow> jsNumber" where
  "js_minus v b =
     (case v of
        Finite a \<Rightarrow> Finite (a - b)
      | PosInfinity \<Rightarrow> PosInfinity
      | NegInfinity \<Rightarrow> NegInfinity
      | NaN \<Rightarrow> NaN)"

definition js_plus :: "real \<Rightarrow> jsNumber \<Rightarrow> jsNumber" where
  "js_plus a v =
     (case v of
        Finite b \<Rightarrow> Finite (a + b)
      | PosInfinity \<Rightarrow> PosInfinity
      | NegInfinity \<Rightarrow> NegInfinity
      | NaN \<Rightarrow> NaN)"

definition TOUCH_SLOP :: real where
  "TOUCH_SLOP = 10"

definition PINCH_TIMEOUT_MS :: int where
  "PINCH_TIMEOUT_MS = 250"

record clientPoint =
  clientX :: real
  clientY :: real

text \<open>A point \<open>{x, y}\<close> of the document (view) space.\<close>

record point =
  px :: real
  py :: real

text \<open>
  What the handlers read of a DOM event. \<open>touches\<close> and \<open>changedTouches\<close> are lists of
  touch points; the empty list also stands for an event without that property (a mouse
  event), which the code treats alike (\<open>!e.touches || !e.touches.length\<close>).
\<close>

record event = clientPoint +
  ctrlKey :: bool
  deltaY :: real
  touches :: "clientPoint list"
  changedTouches :: "clientPoint list"

text \<open>\<open>SyntheticEvent\<close>, lines 528-536: only \<open>clientX\<close>, \<open>clientY\<close> and one touch.\<close>

definition SyntheticEvent :: "clientPoint \<Rightarrow> event" where
  "SyntheticEvent pt =
     \<lparr>clientX = clientX pt, clientY = clientY pt, ctrlKey = False, deltaY = 0,
      touches = [\<lparr>clientX = clientX pt, clientY = clientY pt\<rparr>], changedTouches = []\<rparr>"

text \<open>\<open>clientPointFromEvent\<close>, lines 538-550.\<close>

definition clientPointFromEvent :: "event \<Rightarrow> clientPoint" where
  "clientPointFromEvent e =
     (case changedTouches e of
        [] \<Rightarrow> \<lparr>clientX = clientX e, clientY = clientY e\<rparr>
      | t # ts \<Rightarrow> \<lparr>clientX = clientX t, clientY = clientY t\<rparr>)"

subsection \<open>The collaborators of the state machine\<close>

text \<open>
  Modelled from the spec: the coordinate system (\<open>./coordinateSystem\<close>) is imported by
  index.js and is not among the sources. Section 4.1 of the specification: the view is a
  pan offset and a scale bounded by the configured extents; \<open>setView\<close> clamps the scale
  and sets the pan unconditionally; \<open>scaleAtClientPoint\<close> sets the scale to
  \<open>clamp(currentScale + deltaScale, minScale, maxScale)\<close> and recomputes the pan so that
  the document point under the client point stays under it; \<open>clientPointToViewPoint\<close>
  applies the inverse transform; \<open>resetView\<close> sets scale 1 and the identity offset.
\<close>

record coordSystem =
  view_x :: real
  view_y :: real
  view_scale :: real
  minScale :: real
  maxScale :: real

text \<open>Modelled from the spec: \<open>clamp\<close> of the missing coordinateSystem.js, a value brought into \<open>[lo, hi]\<close>.\<close>

definition clamp :: "real \<Rightarrow> real \<Rightarrow> real \<Rightarrow> real" where
  "clamp v lo hi = max lo (min hi v)"

text \<open>Modelled from the spec: \<open>clientPointToViewPoint\<close> of the missing coordinateSystem.js, the inverse of the transform (scale, then pan).\<close>

definition clientPointToViewPoint :: "coordSystem \<Rightarrow> clientPoint \<Rightarrow> point" where
  "clientPointToViewPoint cs p =
     \<lparr>px = (clientX p - view_x cs) / view_scale cs, py = (clientY p - view_y cs) / view_scale cs\<rparr>"

text \<open>Modelled from the spec: \<open>setView({x, y})\<close> of the missing coordinateSystem.js; the scale is clamped, the pan is set as given.\<close>

definition setView :: "coordSystem \<Rightarrow> real \<Rightarrow> real \<Rightarrow> coordSystem" where
  "setView cs x y =
     cs\<lparr>view_x := x, view_y := y, view_scale := clamp (view_scale cs) (minScale cs) (maxScale cs)\<rparr>"

text \<open>Modelled from the spec: \<open>clamp\<close> of the missing coordinateSystem.js at a value that may be infinite: an infinite value is brought to the bound on its side, as \<open>max lo (min hi v)\<close> gives; for a value that is not a number the specification names no result, which is \<open>None\<close>.\<close>

definition clampNumber :: "jsNumber \<Rightarrow> real \<Rightarrow> real \<Rightarrow> real option" where
  "clampNumber v lo hi =
     (case v of
        Finite r \<Rightarrow> Some (clamp r lo hi)
      | PosInfinity \<Rightarrow> Some (max lo hi)
      | NegInfinity \<Rightarrow> Some lo
      | NaN \<Rightarrow> None)"

text \<open>Modelled from the spec: \<open>scaleAtClientPoint\<close> of the missing coordinateSystem.js; the new scale is clamped and the document point under \<open>p\<close> stays under it. For a change of scale that is not a number the specification names no new scale; the model leaves the view as it is, which keeps the scale within its extents as section 3 of the specification requires of every operation.\<close>

definition scaleAtClientPoint :: "coordSystem \<Rightarrow> jsNumber \<Rightarrow> clientPoint \<Rightarrow> coordSystem" where
  "scaleAtClientPoint cs deltaScale p =
     (case clampNumber (js_plus (view_scale cs) deltaScale) (minScale cs) (maxScale cs) of
        None \<Rightarrow> cs
      | Some newScale \<Rightarrow>
          (let doc = clientPointToViewPoint cs p
           in cs\<lparr>view_x := clientX p - newScale * px doc,
                  view_y := clientY p - newScale * py doc,
                  view_scale := newScale\<rparr>))"

text \<open>Modelled from the spec: \<open>resetView\<close> of the missing coordinateSystem.js.\<close>

definition resetView :: "coordSystem \<Rightarrow> coordSystem" where
  "resetView cs = cs\<lparr>view_x := 0, view_y := 0, view_scale := 1\<rparr>"

text \<open>\<open>viewPointFromEvent\<close>, lines 552-554.\<close>

definition viewPointFromEvent :: "coordSystem \<Rightarrow> event \<Rightarrow> point" where
  "viewPointFromEvent coordSystem e = clientPointToViewPoint coordSystem (clientPointFromEvent e)"

text \<open>
  The pointer-smoothing filter is the external library lazy-brush: an object with a state
  and the three operations the handlers call, \<open>update(point, {both})\<close>,
  \<open>brush.toObject()\<close> and \<open>isEnabled()\<close>. They are parameters of the model.
\<close>

record 'l lazyBrush =
  lazyState :: 'l
  lazyUpdate :: "'l \<Rightarrow> point \<Rightarrow> bool \<Rightarrow> 'l"
  lazyBrushPoint :: "'l \<Rightarrow> point"
  lazyIsEnabled :: "'l \<Rightarrow> bool"

definition LazyBrush_update :: "'l lazyBrush \<Rightarrow> point \<Rightarrow> bool \<Rightarrow> 'l lazyBrush" where
  "LazyBrush_update lz p both = lz\<lparr>lazyState := lazyUpdate lz (lazyState lz) p both\<rparr>"

definition LazyBrush_brush :: "'l lazyBrush \<Rightarrow> point" where
  "LazyBrush_brush lz = lazyBrushPoint lz (lazyState lz)"

definition LazyBrush_isEnabled :: "'l lazyBrush \<Rightarrow> bool" where
  "LazyBrush_isEnabled lz = lazyIsEnabled lz (lazyState lz)"

text \<open>
  A lazy brush of radius 0 (the default \<open>lazyRadius\<close>), for concrete runs: the brush is
  where the pointer was put last.
\<close>

definition directUpdate :: "point \<Rightarrow> point \<Rightarrow> bool \<Rightarrow> point" where
  "directUpdate l p both = p"

definition directBrushPoint :: "point \<Rightarrow> point" where
  "directBrushPoint l = l"

definition directIsEnabled :: "point \<Rightarrow> bool" where
  "directIsEnabled l = True"

definition directLazyBrush :: "point lazyBrush" where
  "directLazyBrush =
     \<lparr>lazyState = \<lparr>px = 0, py = 0\<rparr>, lazyUpdate = directUpdate,
      lazyBrushPoint = directBrushPoint, lazyIsEnabled = directIsEnabled\<rparr>"

subsection \<open>The part of the component that the handlers read and write\<close>

record props =
  disabled :: bool
  enablePanAndZoom :: bool
  mouseZoomFactor :: real
  tool :: string
  brushColor :: string
  brushRadius :: real
  clampLinesToDocument :: bool
  canvasWidth :: real
  canvasHeight :: real

record line =
  line_points :: "point list"
  line_brushColor :: string
  line_brushRadius :: real

text \<open>
  \<open>clientWidth\<close> and \<open>clientHeight\<close> are those of \<open>canvas.drawing\<close>. A call of the
  component's \<open>floodFill(context, x, y, color)\<close> is recorded in \<open>floodFillCalls\<close> with
  its seed and colour; what it does to the pixels is the subject of the first section.
  Drawing on the canvases (\<open>drawPoints\<close>, the redraw after a change of view) and
  \<open>preventDefault\<close> are not part of the model.
\<close>

record 'l canvasDraw =
  props :: props
  coordSystem :: coordSystem
  lazy :: "'l lazyBrush"
  points :: "point list"
  lines :: "line list"
  lastX :: real
  lastY :: real
  clientWidth :: real
  clientHeight :: real
  floodFillCalls :: "(int \<times> int \<times> string) list"

text \<open>\<open>Math.round\<close>: the nearest integer, halves upwards.\<close>

definition Math_round :: "real \<Rightarrow> int" where
  "Math_round v = \<lfloor>v + 1 / 2\<rfloor>"

text \<open>\<open>clampPointToDocument\<close>, index.js lines 678-687.\<close>

definition clampPointToDocument :: "'l canvasDraw \<Rightarrow> point \<Rightarrow> point" where
  "clampPointToDocument cd p =
     (if clampLinesToDocument (props cd)
      then \<lparr>px = max (min (px p) (canvasWidth (props cd))) 0,
            py = max (min (py p) (canvasHeight (props cd))) 0\<rparr>
      else p)"

text \<open>
  \<open>saveLine\<close>, index.js lines 862-890, called without arguments: colour and radius come
  from the props.
\<close>

definition saveLine :: "'l canvasDraw \<Rightarrow> 'l canvasDraw" where
  "saveLine cd =
     (if length (points cd) < 2 then cd
      else cd\<lparr>lines := lines cd @
                  [\<lparr>line_points = points cd, line_brushColor = brushColor (props cd),
                    line_brushRadius = brushRadius (props cd)\<rparr>],
              points := []\<rparr>)"

text \<open>
  \<open>drawRect\<close> and \<open>drawCircle\<close>, index.js lines 781-828, call \<open>loadSaveData\<close>, whose
  first statement is \<open>this.clear()\<close>: the lines are dropped and the view is reset. The
  rest of them draws.
\<close>

definition clear :: "'l canvasDraw \<Rightarrow> 'l canvasDraw" where
  "clear cd = cd\<lparr>lines := [], coordSystem := resetView (coordSystem cd)\<rparr>"

definition drawRect :: "'l canvasDraw \<Rightarrow> 'l canvasDraw" where
  "drawRect cd = clear cd"

definition drawCircle :: "'l canvasDraw \<Rightarrow> 'l canvasDraw" where
  "drawCircle cd = clear cd"

subsection \<open>The states\<close>

record touchMetrics =
  t1 :: clientPoint
  t2 :: clientPoint
  distance :: real
  centroid :: clientPoint

record panFields =
  dragStart :: clientPoint
  panStart :: point

record waitFields =
  startClientPoint :: "clientPoint option"
  startTimestamp :: int
  deferredPoints :: "clientPoint list"

record scaleOrPanFields =
  start :: touchMetrics
  sop_panStart :: point
  scaleStart :: real
  recentMetrics :: "touchMetrics option"

text \<open>
  One constructor for each class. \<open>TouchPanState\<close> and \<open>TouchScaleState\<close> hold the
  \<open>ScaleOrPanState\<close> they were made from; \<open>DrawingState\<close> holds \<open>isDrawing\<close>.
\<close>

datatype state =
    DefaultState
  | DisabledState
  | PanState panFields
  | WaitForPinchState waitFields
  | ScaleOrPanState scaleOrPanFields
  | TouchPanState scaleOrPanFields
  | TouchScaleState scaleOrPanFields
  | DrawingState bool

text \<open>
  \<open>SUPPRESS_SCROLL\<close>, lines 5-9, is an arrow function at the top level of the module
  that returns \<open>this\<close>. The \<open>this\<close> of an arrow function is that of the scope where it is
  written, here the module, where it is \<open>undefined\<close>; \<open>SUPPRESS_SCROLL.bind(this)\<close> in
  the classes does not change it. So the function returns \<open>undefined\<close>, not a state:
  \<open>None\<close>.
\<close>

definition SUPPRESS_SCROLL :: "event \<Rightarrow> state option" where
  "SUPPRESS_SCROLL e = None"

subsection \<open>\<open>DrawingState\<close>, lines 360-526\<close>

text \<open>
  The handlers of \<open>DrawingState\<close> return \<open>this\<close>; they are given the \<open>isDrawing\<close> field
  of \<open>this\<close> and return its value after the call.
\<close>

definition pushBrushPoint :: "'l canvasDraw \<Rightarrow> 'l canvasDraw" where
  "pushBrushPoint cd = cd\<lparr>points := points cd @ [clampPointToDocument cd (LazyBrush_brush (lazy cd))]\<rparr>"

definition DrawingState_handleDrawMove ::
  "bool \<Rightarrow> event \<Rightarrow> 'l canvasDraw \<Rightarrow> bool \<Rightarrow> bool \<times> 'l canvasDraw" where
  "DrawingState_handleDrawMove isDrawing e canvasDraw shouldStartAtEdge =
     (let realCanvasWidth = clientWidth canvasDraw;
          realCanvasHeight = clientHeight canvasDraw;
          p = viewPointFromEvent (coordSystem canvasDraw) e;
          x = px p;
          y = py p;
          cd1 = canvasDraw\<lparr>lastX := x, lastY := y\<rparr>;
          cd2 = (if tool (props cd1) = ''FloodFill''
                 then cd1\<lparr>floodFillCalls := floodFillCalls cd1 @
                        [(Math_round x, Math_round y, brushColor (props cd1))]\<rparr>
                 else cd1);
          cd3 = (if tool (props cd2) = ''Rectangle'' then drawRect cd2 else cd2);
          cd4 = (if tool (props cd3) = ''Circle'' then drawCircle cd3 else cd3)
      in if tool (props cd4) \<noteq> ''Pencil'' \<and> tool (props cd4) \<noteq> ''Eraser''
         then (isDrawing, cd4)
         else
           (let offset = 80;
                x' = (if shouldStartAtEdge
                      then (if lastX cd4 < 0 \<and> x < offset then 0
                            else if lastX cd4 \<ge> realCanvasWidth \<and> x \<ge> realCanvasWidth - offset
                            then x + 500 else x)
                      else x);
                y' = (if shouldStartAtEdge
                      then (if lastY cd4 < 0 \<and> y < offset then 0
                            else if lastY cd4 \<ge> realCanvasHeight \<and> y \<ge> realCanvasHeight - offset
                            then y + 500 else y)
                      else y);
                cd5 = (if shouldStartAtEdge then cd4 else cd4\<lparr>lastX := x, lastY := y\<rparr>);
                cd6 = cd5\<lparr>lazy := LazyBrush_update (lazy cd5) \<lparr>px = x', py = y'\<rparr> False\<rparr>;
                isDisabled = (\<not> LazyBrush_isEnabled (lazy cd6));
                cd7 = (if \<not> isDrawing \<or> isDisabled then pushBrushPoint cd6 else cd6);
                isDrawing' = (if \<not> isDrawing \<or> isDisabled then True else isDrawing)
            in (isDrawing', pushBrushPoint cd7)))"

definition DrawingState_handleDrawStart ::
  "bool \<Rightarrow> event \<Rightarrow> 'l canvasDraw \<Rightarrow> bool \<Rightarrow> bool \<times> 'l canvasDraw" where
  "DrawingState_handleDrawStart isDrawing e canvasDraw shouldStartAtEdge =
     (let cd1 = (if touches e \<noteq> []
                 then canvasDraw\<lparr>lazy := LazyBrush_update (lazy canvasDraw)
                        (viewPointFromEvent (coordSystem canvasDraw) e) True\<rparr>
                 else canvasDraw)
      in DrawingState_handleDrawMove isDrawing e cd1 shouldStartAtEdge)"

definition DrawingState_handleDrawEnd :: "bool \<Rightarrow> event \<Rightarrow> 'l canvasDraw \<Rightarrow> state \<times> 'l canvasDraw" where
  "DrawingState_handleDrawEnd isDrawing e canvasDraw =
     (let (isDrawing', cd1) = DrawingState_handleDrawMove isDrawing e canvasDraw False
      in (DefaultState, saveLine cd1))"

subsection \<open>\<open>ScaleOrPanState\<close>, \<open>TouchPanState\<close> and \<open>TouchScaleState\<close>, lines 234-355\<close>

text \<open>\<open>getTouchMetrics\<close>, lines 280-293, of the first two touches of the event.\<close>

definition getTouchMetrics :: "clientPoint \<Rightarrow> clientPoint \<Rightarrow> touchMetrics" where
  "getTouchMetrics touch0 touch1 =
     (let t1x = clientX touch0; t1y = clientY touch0;
          t2x = clientX touch1; t2y = clientY touch1;
          dx = t2x - t1x;
          dy = t2y - t1y
      in \<lparr>t1 = \<lparr>clientX = t1x, clientY = t1y\<rparr>,
          t2 = \<lparr>clientX = t2x, clientY = t2y\<rparr>,
          distance = sqrt (dx * dx + dy * dy),
          centroid = \<lparr>clientX = (t1x + t2x) / 2, clientY = (t1y + t2y) / 2\<rparr>\<rparr>)"

text \<open>
  The first argument of \<open>ScaleOrPanState_handleDrawStart\<close> is the \<open>recentMetrics\<close> field
  of \<open>this\<close>, \<open>None\<close> for a state that has just been constructed.
\<close>

definition ScaleOrPanState_handleDrawStart ::
  "touchMetrics option \<Rightarrow> event \<Rightarrow> 'l canvasDraw \<Rightarrow> state \<times> 'l canvasDraw" where
  "ScaleOrPanState_handleDrawStart recent e canvasDraw =
     (case touches e of
        touch0 # touch1 # ts \<Rightarrow>
          (ScaleOrPanState
             \<lparr>start = getTouchMetrics touch0 touch1,
              sop_panStart = \<lparr>px = view_x (coordSystem canvasDraw), py = view_y (coordSystem canvasDraw)\<rparr>,
              scaleStart = view_scale (coordSystem canvasDraw),
              recentMetrics = recent\<rparr>,
           canvasDraw)
      | _ \<Rightarrow> (DefaultState, canvasDraw))"

definition TouchScaleState_handleDrawMove ::
  "scaleOrPanFields \<Rightarrow> event \<Rightarrow> 'l canvasDraw \<Rightarrow> state \<times> 'l canvasDraw" where
  "TouchScaleState_handleDrawMove ref e canvasDraw =
     (case touches e of
        touch0 # touch1 # ts \<Rightarrow>
          (let m = getTouchMetrics touch0 touch1;
               ref' = ref\<lparr>recentMetrics := Some m\<rparr>;
               targetScale = js_times (scaleStart ref') (js_divide (distance m) (distance (start ref')));
               dScale = js_minus targetScale (view_scale (coordSystem canvasDraw))
           in (TouchScaleState ref',
               canvasDraw\<lparr>coordSystem := scaleAtClientPoint (coordSystem canvasDraw) dScale (centroid m)\<rparr>))
      | _ \<Rightarrow> (DefaultState, canvasDraw))"

definition TouchPanState_handleDrawMove ::
  "scaleOrPanFields \<Rightarrow> event \<Rightarrow> 'l canvasDraw \<Rightarrow> state \<times> 'l canvasDraw" where
  "TouchPanState_handleDrawMove ref e canvasDraw =
     (case touches e of
        touch0 # touch1 # ts \<Rightarrow>
          (let m = getTouchMetrics touch0 touch1;
               ref' = ref\<lparr>recentMetrics := Some m\<rparr>;
               dx = clientX (centroid m) - clientX (centroid (start ref'));
               dy = clientY (centroid m) - clientY (centroid (start ref'))
           in (TouchPanState ref',
               canvasDraw\<lparr>coordSystem := setView (coordSystem canvasDraw)
                    (px (sop_panStart ref') + dx) (py (sop_panStart ref') + dy)\<rparr>))
      | _ \<Rightarrow> (DefaultState, canvasDraw))"

definition ScaleOrPanState_handleDrawMove ::
  "scaleOrPanFields \<Rightarrow> event \<Rightarrow> 'l canvasDraw \<Rightarrow> state \<times> 'l canvasDraw" where
  "ScaleOrPanState_handleDrawMove this e canvasDraw =
     (case touches e of
        touch0 # touch1 # ts \<Rightarrow>
          (let m = getTouchMetrics touch0 touch1;
               this' = this\<lparr>recentMetrics := Some m\<rparr>;
               dd = \<bar>distance m - distance (start this')\<bar>
           in if dd \<ge> TOUCH_SLOP then TouchScaleState_handleDrawMove this' e canvasDraw
              else
                (let dx = clientX (centroid m) - clientX (centroid (start this'));
                     dy = clientY (centroid m) - clientY (centroid (start this'));
                     dc = \<bar>dx\<bar> + \<bar>dy\<bar>
                 in if dc \<ge> TOUCH_SLOP then TouchPanState_handleDrawMove this' e canvasDraw
                    else (ScaleOrPanState this', canvasDraw)))
      | _ \<Rightarrow> (DefaultState, canvasDraw))"

subsection \<open>\<open>WaitForPinchState\<close>, lines 142-228\<close>

text \<open>
  The constructor reads the clock (\<open>new Date().valueOf()\<close>, in milliseconds), and so
  does \<open>handleDrawMove\<close>: the handlers that can reach either take the reading of the
  clock during the call as the argument \<open>now\<close>.
\<close>

definition new_WaitForPinchState :: "int \<Rightarrow> waitFields" where
  "new_WaitForPinchState now = \<lparr>startClientPoint = None, startTimestamp = now, deferredPoints = []\<rparr>"

text \<open>
  \<open>issueDeferredPoints\<close>, lines 215-227: the first point goes through \<open>handleDrawStart\<close>
  of a new \<open>DrawingState\<close>, the others through \<open>handleDrawMove\<close>, each as a
  \<open>SyntheticEvent\<close> and without the third argument.
\<close>

primrec issueDeferredMoves :: "bool \<Rightarrow> clientPoint list \<Rightarrow> 'l canvasDraw \<Rightarrow> bool \<times> 'l canvasDraw" where
  "issueDeferredMoves isDrawing [] canvasDraw = (isDrawing, canvasDraw)"
| "issueDeferredMoves isDrawing (deferredPt # pts) canvasDraw =
     (let (isDrawing', cd1) = DrawingState_handleDrawMove isDrawing (SyntheticEvent deferredPt) canvasDraw False
      in issueDeferredMoves isDrawing' pts cd1)"

definition issueDeferredPoints :: "clientPoint list \<Rightarrow> 'l canvasDraw \<Rightarrow> bool \<times> 'l canvasDraw" where
  "issueDeferredPoints deferred canvasDraw =
     (case deferred of
        [] \<Rightarrow> (False, canvasDraw)
      | deferredPt # pts \<Rightarrow>
          (let (isDrawing, cd1) = DrawingState_handleDrawStart False (SyntheticEvent deferredPt) canvasDraw False
           in issueDeferredMoves isDrawing pts cd1))"

definition asDrawingState :: "bool \<times> 'l canvasDraw \<Rightarrow> state \<times> 'l canvasDraw" where
  "asDrawingState r = (DrawingState (fst r), snd r)"

definition WaitForPinchState_handleDrawMove ::
  "waitFields \<Rightarrow> int \<Rightarrow> event \<Rightarrow> 'l canvasDraw \<Rightarrow> state \<times> 'l canvasDraw" where
  "WaitForPinchState_handleDrawMove this now e canvasDraw =
     (if length (touches e) \<ge> 2 then ScaleOrPanState_handleDrawStart None e canvasDraw
      else
        (let clientPt = clientPointFromEvent e;
             this1 = this\<lparr>deferredPoints := deferredPoints this @ [clientPt]\<rparr>
         in if now - startTimestamp this1 < PINCH_TIMEOUT_MS
            then
              (let startPt = (case startClientPoint this1 of None \<Rightarrow> clientPt | Some s \<Rightarrow> s);
                   this2 = this1\<lparr>startClientPoint := Some startPt\<rparr>;
                   d = \<bar>clientX clientPt - clientX startPt\<bar> + \<bar>clientY clientPt - clientY startPt\<bar>
               in if d < TOUCH_SLOP then (WaitForPinchState this2, canvasDraw)
                  else asDrawingState (issueDeferredPoints (deferredPoints this2) canvasDraw))
            else asDrawingState (issueDeferredPoints (deferredPoints this1) canvasDraw)))"

definition WaitForPinchState_handleDrawStart ::
  "waitFields \<Rightarrow> int \<Rightarrow> event \<Rightarrow> 'l canvasDraw \<Rightarrow> bool \<Rightarrow> state \<times> 'l canvasDraw" where
  "WaitForPinchState_handleDrawStart this now e canvasDraw shouldStartAtEdge =
     (if touches e = [] \<or> \<not> enablePanAndZoom (props canvasDraw)
      then asDrawingState (DrawingState_handleDrawStart False e canvasDraw shouldStartAtEdge)
      else if enablePanAndZoom (props canvasDraw) \<and> length (touches e) \<ge> 2
      then ScaleOrPanState_handleDrawStart None e canvasDraw
      else WaitForPinchState_handleDrawMove this now e canvasDraw)"

definition WaitForPinchState_handleDrawEnd ::
  "waitFields \<Rightarrow> event \<Rightarrow> 'l canvasDraw \<Rightarrow> state \<times> 'l canvasDraw" where
  "WaitForPinchState_handleDrawEnd this e canvasDraw =
     (let (isDrawing, cd1) = issueDeferredPoints (deferredPoints this) canvasDraw
      in DrawingState_handleDrawEnd isDrawing e cd1)"

subsection \<open>\<open>PanState\<close>, lines 104-134\<close>

definition PanState_handleDrawStart :: "event \<Rightarrow> 'l canvasDraw \<Rightarrow> state \<times> 'l canvasDraw" where
  "PanState_handleDrawStart e canvasDraw =
     (PanState \<lparr>dragStart = clientPointFromEvent e,
                panStart = \<lparr>px = view_x (coordSystem canvasDraw), py = view_y (coordSystem canvasDraw)\<rparr>\<rparr>,
      canvasDraw)"

definition PanState_handleDrawMove :: "panFields \<Rightarrow> event \<Rightarrow> 'l canvasDraw \<Rightarrow> state \<times> 'l canvasDraw" where
  "PanState_handleDrawMove this e canvasDraw =
     (let c = clientPointFromEvent e;
          dx = clientX c - clientX (dragStart this);
          dy = clientY c - clientY (dragStart this)
      in (PanState this,
          canvasDraw\<lparr>coordSystem := setView (coordSystem canvasDraw)
               (px (panStart this) + dx) (py (panStart this) + dy)\<rparr>))"

subsection \<open>\<open>DefaultState\<close> and \<open>DisabledState\<close>, lines 15-98\<close>

definition DefaultState_handleMouseWheel :: "event \<Rightarrow> 'l canvasDraw \<Rightarrow> state option \<times> 'l canvasDraw" where
  "DefaultState_handleMouseWheel e canvasDraw =
     (if disabled (props canvasDraw) then (Some DisabledState, canvasDraw)
      else if enablePanAndZoom (props canvasDraw) \<and> ctrlKey e
      then (Some DefaultState,
            canvasDraw\<lparr>coordSystem := scaleAtClientPoint (coordSystem canvasDraw)
                 (Finite (mouseZoomFactor (props canvasDraw) * deltaY e)) (clientPointFromEvent e)\<rparr>)
      else (Some DefaultState, canvasDraw))"

definition DefaultState_handleDrawStart ::
  "int \<Rightarrow> event \<Rightarrow> 'l canvasDraw \<Rightarrow> bool \<Rightarrow> state \<times> 'l canvasDraw" where
  "DefaultState_handleDrawStart now e canvasDraw shouldStartAtEdge =
     (if disabled (props canvasDraw) then (DisabledState, canvasDraw)
      else if ctrlKey e \<and> enablePanAndZoom (props canvasDraw) then PanState_handleDrawStart e canvasDraw
      else WaitForPinchState_handleDrawStart (new_WaitForPinchState now) now e canvasDraw shouldStartAtEdge)"

definition DefaultState_handleDrawMove :: "event \<Rightarrow> 'l canvasDraw \<Rightarrow> state \<times> 'l canvasDraw" where
  "DefaultState_handleDrawMove e canvasDraw =
     (if disabled (props canvasDraw) then (DisabledState, canvasDraw)
      else (DefaultState,
            canvasDraw\<lparr>lazy := LazyBrush_update (lazy canvasDraw)
                 (viewPointFromEvent (coordSystem canvasDraw) e) False\<rparr>))"

definition DefaultState_handleDrawEnd :: "event \<Rightarrow> 'l canvasDraw \<Rightarrow> state \<times> 'l canvasDraw" where
  "DefaultState_handleDrawEnd e canvasDraw =
     (if disabled (props canvasDraw) then DisabledState else DefaultState, canvasDraw)"

subsection \<open>The four handlers, dispatched on the class of the state\<close>

text \<open>
  The result of a handler is what the host stores as its next state
  (\<open>this.interactionSM = this.interactionSM.handleDrawMove(e, this)\<close>, index.js lines
  604-627), with the component after the call. \<open>handleMouseWheel\<close> of the six classes of
  an active gesture is \<open>SUPPRESS_SCROLL\<close>; \<open>DisabledState\<close> calls the handlers of a
  new \<open>DefaultState\<close> without a third argument.
\<close>

fun handleMouseWheel :: "state \<Rightarrow> event \<Rightarrow> 'l canvasDraw \<Rightarrow> state option \<times> 'l canvasDraw" where
  "handleMouseWheel DefaultState e canvasDraw = DefaultState_handleMouseWheel e canvasDraw"
| "handleMouseWheel DisabledState e canvasDraw =
     (if disabled (props canvasDraw) then (Some DisabledState, canvasDraw)
      else DefaultState_handleMouseWheel e canvasDraw)"
| "handleMouseWheel (PanState this) e canvasDraw = (SUPPRESS_SCROLL e, canvasDraw)"
| "handleMouseWheel (WaitForPinchState this) e canvasDraw = (SUPPRESS_SCROLL e, canvasDraw)"
| "handleMouseWheel (ScaleOrPanState this) e canvasDraw = (SUPPRESS_SCROLL e, canvasDraw)"
| "handleMouseWheel (TouchPanState ref) e canvasDraw = (SUPPRESS_SCROLL e, canvasDraw)"
| "handleMouseWheel (TouchScaleState ref) e canvasDraw = (SUPPRESS_SCROLL e, canvasDraw)"
| "handleMouseWheel (DrawingState isDrawing) e canvasDraw = (SUPPRESS_SCROLL e, canvasDraw)"

fun handleDrawStart :: "state \<Rightarrow> int \<Rightarrow> event \<Rightarrow> 'l canvasDraw \<Rightarrow> bool \<Rightarrow> state \<times> 'l canvasDraw" where
  "handleDrawStart DefaultState now e canvasDraw shouldStartAtEdge =
     DefaultState_handleDrawStart now e canvasDraw shouldStartAtEdge"
| "handleDrawStart DisabledState now e canvasDraw shouldStartAtEdge =
     (if disabled (props canvasDraw) then (DisabledState, canvasDraw)
      else DefaultState_handleDrawStart now e canvasDraw False)"
| "handleDrawStart (PanState this) now e canvasDraw shouldStartAtEdge = PanState_handleDrawStart e canvasDraw"
| "handleDrawStart (WaitForPinchState this) now e canvasDraw shouldStartAtEdge =
     WaitForPinchState_handleDrawStart this now e canvasDraw shouldStartAtEdge"
| "handleDrawStart (ScaleOrPanState this) now e canvasDraw shouldStartAtEdge =
     ScaleOrPanState_handleDrawStart (recentMetrics this) e canvasDraw"
| "handleDrawStart (TouchPanState ref) now e canvasDraw shouldStartAtEdge = (TouchPanState ref, canvasDraw)"
| "handleDrawStart (TouchScaleState ref) now e canvasDraw shouldStartAtEdge = (TouchScaleState ref, canvasDraw)"
| "handleDrawStart (DrawingState isDrawing) now e canvasDraw shouldStartAtEdge =
     asDrawingState (DrawingState_handleDrawStart isDrawing e canvasDraw shouldStartAtEdge)"

fun handleDrawMove :: "state \<Rightarrow> int \<Rightarrow> event \<Rightarrow> 'l canvasDraw \<Rightarrow> state \<times> 'l canvasDraw" where
  "handleDrawMove DefaultState now e canvasDraw = DefaultState_handleDrawMove e canvasDraw"
| "handleDrawMove DisabledState now e canvasDraw =
     (if disabled (props canvasDraw) then (DisabledState, canvasDraw)
      else DefaultState_handleDrawMove e canvasDraw)"
| "handleDrawMove (PanState this) now e canvasDraw = PanState_handleDrawMove this e canvasDraw"
| "handleDrawMove (WaitForPinchState this) now e canvasDraw =
     WaitForPinchState_handleDrawMove this now e canvasDraw"
| "handleDrawMove (ScaleOrPanState this) now e canvasDraw = ScaleOrPanState_handleDrawMove this e canvasDraw"
| "handleDrawMove (TouchPanState ref) now e canvasDraw = TouchPanState_handleDrawMove ref e canvasDraw"
| "handleDrawMove (TouchScaleState ref) now e canvasDraw = TouchScaleState_handleDrawMove ref e canvasDraw"
| "handleDrawMove (DrawingState isDrawing) now e canvasDraw =
     asDrawingState (DrawingState_handleDrawMove isDrawing e canvasDraw False)"

fun handleDrawEnd :: "state \<Rightarrow> event \<Rightarrow> 'l canvasDraw \<Rightarrow> state \<times> 'l canvasDraw" where
  "handleDrawEnd DefaultState e canvasDraw = DefaultState_handleDrawEnd e canvasDraw"
| "handleDrawEnd DisabledState e canvasDraw =
     (if disabled (props canvasDraw) then (DisabledState, canvasDraw)
      else DefaultState_handleDrawEnd e canvasDraw)"
| "handleDrawEnd (PanState this) e canvasDraw = (DefaultState, canvasDraw)"
| "handleDrawEnd (WaitForPinchState this) e canvasDraw = WaitForPinchState_handleDrawEnd this e canvasDraw"
| "handleDrawEnd (ScaleOrPanState this) e canvasDraw = (DefaultState, canvasDraw)"
| "handleDrawEnd (TouchPanState ref) e canvasDraw = (DefaultState, canvasDraw)"
| "handleDrawEnd (TouchScaleState ref) e canvasDraw = (DefaultState, canvasDraw)"
| "handleDrawEnd (DrawingState isDrawing) e canvasDraw = DrawingState_handleDrawEnd isDrawing e canvasDraw"

text \<open>A run of move events, each with the reading of the clock at its arrival.\<close>

fun handleDrawMoves :: "state \<Rightarrow> (int \<times> event) list \<Rightarrow> 'l canvasDraw \<Rightarrow> state \<times> 'l canvasDraw" where
  "handleDrawMoves s [] canvasDraw = (s, canvasDraw)"
| "handleDrawMoves s ((now, e) # es) canvasDraw =
     (let (s', cd1) = handleDrawMove s now e canvasDraw in handleDrawMoves s' es cd1)"

subsection \<open>Vocabulary for the properties of the state machine\<close>

text \<open>The distance that \<open>WaitForPinchState.handleDrawMove\<close> compares with the slop.\<close>

definition manhattan :: "clientPoint \<Rightarrow> clientPoint \<Rightarrow> real" where
  "manhattan p q = \<bar>clientX p - clientX q\<bar> + \<bar>clientY p - clientY q\<bar>"

text \<open>
  A move event, with the reading of the clock at its arrival, that keeps the machine
  waiting: at most one touch, less than the timeout after the state was entered, and
  less than the slop away from the first recorded point \<open>a\<close>.
\<close>

definition calm :: "waitFields \<Rightarrow> clientPoint \<Rightarrow> int \<times> event \<Rightarrow> bool" where
  "calm w a te \<longleftrightarrow>
     length (touches (snd te)) < 2 \<and> fst te - startTimestamp w < PINCH_TIMEOUT_MS \<and>
     manhattan (clientPointFromEvent (snd te)) a < TOUCH_SLOP"

text \<open>
  The first recorded point: \<open>startClientPoint\<close> when the state has one, the point of
  the first event otherwise.
\<close>

definition firstRecorded :: "waitFields \<Rightarrow> (int \<times> event) list \<Rightarrow> clientPoint" where
  "firstRecorded w es =
     (case startClientPoint w of Some s \<Rightarrow> s | None \<Rightarrow> clientPointFromEvent (snd (hd es)))"

text \<open>
  Delivering events live to a new \<open>DrawingState\<close>: the first through
  \<open>handleDrawStart\<close>, the others through \<open>handleDrawMove\<close>, as the host does.
\<close>

primrec liveMoves :: "bool \<Rightarrow> event list \<Rightarrow> 'l canvasDraw \<Rightarrow> bool \<times> 'l canvasDraw" where
  "liveMoves isDrawing [] canvasDraw = (isDrawing, canvasDraw)"
| "liveMoves isDrawing (e # es) canvasDraw =
     (let (isDrawing', cd1) = DrawingState_handleDrawMove isDrawing e canvasDraw False
      in liveMoves isDrawing' es cd1)"

definition liveDelivery :: "event list \<Rightarrow> 'l canvasDraw \<Rightarrow> bool \<times> 'l canvasDraw" where
  "liveDelivery es canvasDraw =
     (case es of
        [] \<Rightarrow> (False, canvasDraw)
      | e # es' \<Rightarrow>
          (let (isDrawing, cd1) = DrawingState_handleDrawStart False e canvasDraw False
           in liveMoves isDrawing es' cd1))"

text \<open>
  A lazy brush that follows the pointer, as the one of radius 0 (the default
  \<open>lazyRadius\<close>) does: it is enabled, and after an update the brush is at the point that
  the update was given.
\<close>

definition followsPointer :: "'l lazyBrush \<Rightarrow> bool" where
  "followsPointer lz \<longleftrightarrow>
     (\<forall>l p both. lazyBrushPoint lz (lazyUpdate lz l p both) = p) \<and> (\<forall>l. lazyIsEnabled lz l)"

text \<open>
  The point of the document that a stroke records for a client point: the view point,
  put through \<open>clampPointToDocument\<close>.
\<close>

definition docPoint :: "'l canvasDraw \<Rightarrow> clientPoint \<Rightarrow> point" where
  "docPoint cd p = clampPointToDocument cd (clientPointToViewPoint (coordSystem cd) p)"

text \<open>
  Events and a component for concrete runs: a mouse event, a touch event with the given
  touches (all of them changed), and a component with the default props of index.js
  (lines 72-105) but for the tool, the pan-and-zoom switch and the scale of the view.
\<close>

definition mouseEvent :: "real \<Rightarrow> real \<Rightarrow> event" where
  "mouseEvent x y =
     \<lparr>clientX = x, clientY = y, ctrlKey = False, deltaY = 0, touches = [], changedTouches = []\<rparr>"

definition touchEvent :: "clientPoint list \<Rightarrow> event" where
  "touchEvent ts =
     \<lparr>clientX = 0, clientY = 0, ctrlKey = False, deltaY = 0, touches = ts, changedTouches = ts\<rparr>"

definition touchAt :: "real \<Rightarrow> real \<Rightarrow> clientPoint" where
  "touchAt x y = \<lparr>clientX = x, clientY = y\<rparr>"

definition exampleCanvas :: "string \<Rightarrow> bool \<Rightarrow> real \<Rightarrow> point canvasDraw" where
  "exampleCanvas t panZoom scale =
     \<lparr>props = \<lparr>disabled = False, enablePanAndZoom = panZoom, mouseZoomFactor = 1 / 100, tool = t,
               brushColor = ''#db2727'', brushRadius = 10, clampLinesToDocument = False,
               canvasWidth = 400, canvasHeight = 400\<rparr>,
      coordSystem = \<lparr>view_x = 0, view_y = 0, view_scale = scale, minScale = 33 / 100, maxScale = 3\<rparr>,
      lazy = directLazyBrush, points = [], lines = [], lastX = 0, lastY = 0,
      clientWidth = 400, clientHeight = 400, floodFillCalls = []\<rparr>"







section \<open>The span fill: class \<open>FloodFill\<close> of src/src/FloodFill.js\<close>

text \<open>
  The class works on an \<open>ImageData\<close> through four functions that it imports from
  \<open>./FloodFillUtils\<close>, a module that is not among the sources, and keeps in fields so
  that a caller can replace them ("Allow for custom implementations of the following
  methods"). They are parameters of the model, as are the types of the colours and of
  the pixel store. \<open>width\<close> and \<open>height\<close> of an \<open>ImageData\<close> are read-only, so
  \<open>setColorAtPixel\<close>, which changes the image in place, is a function to the new pixel
  store.
\<close>

record 'd ImageData =
  img_width :: nat
  img_height :: nat
  img_data :: 'd

record ('d, 'c, 'css) FloodFillUtils =
  isSameColor :: "'c \<Rightarrow> 'c \<Rightarrow> real \<Rightarrow> bool"
  setColorAtPixel :: "'d ImageData \<Rightarrow> 'c \<Rightarrow> int \<Rightarrow> int \<Rightarrow> 'd"
  getColorAtPixel :: "'d ImageData \<Rightarrow> int \<Rightarrow> int \<Rightarrow> 'c"
  colorToRGBA :: "'css \<Rightarrow> 'c"

text \<open>
  The fields that \<open>fill\<close> sets before it starts the queue: \<open>_replacedColor\<close>,
  \<open>_newColor\<close> and \<open>_tolerance\<close>.
\<close>

record 'c fillFields =
  replacedColor :: 'c
  newColor :: 'c
  tolerance :: real

text \<open>A queued line \<open>[startX, endX, y, parentY]\<close>.\<close>

type_synonym lineQueueItem = "int \<times> int \<times> int \<times> int"

datatype direction = Left | Right

text \<open>
  \<open>v | 0\<close> is \<open>ToInt32\<close>: the integer \<open>v\<close> taken modulo \<open>2^32\<close> and read as a signed
  32-bit integer, so that 4294967295 becomes -1.
\<close>

definition toInt32 :: "int \<Rightarrow> int" where
  "toInt32 v = sint (word_of_int v :: 32 word)"

text \<open>\<open>getPixelNeighbour\<close>, lines 126-142; \<open>None\<close> is \<open>null\<close>.\<close>

definition getPixelNeighbour :: "'d ImageData \<Rightarrow> direction \<Rightarrow> int \<Rightarrow> int \<Rightarrow> (int \<times> int) option" where
  "getPixelNeighbour imageData direction x y =
     (let x1 = toInt32 x;
          y1 = toInt32 y;
          coords = (case direction of
                      Right \<Rightarrow> (toInt32 (x1 + 1), y1)
                    | Left \<Rightarrow> (toInt32 (x1 - 1), y1))
      in if fst coords \<ge> 0 \<and> fst coords < int (img_width imageData) then Some coords else None)"

text \<open>\<open>isValidTarget\<close>, lines 55-61, and \<open>setPixelColor\<close>, lines 119-124.\<close>

definition isValidTarget ::
  "('d, 'c, 'css) FloodFillUtils \<Rightarrow> 'c fillFields \<Rightarrow> 'd ImageData \<Rightarrow> int \<times> int \<Rightarrow> bool" where
  "isValidTarget U this imageData pixel =
     (let pixelColor = getColorAtPixel U imageData (fst pixel) (snd pixel)
      in isSameColor U (replacedColor this) pixelColor (tolerance this))"

definition setPixelColor ::
  "('d, 'c, 'css) FloodFillUtils \<Rightarrow> 'd ImageData \<Rightarrow> 'c \<Rightarrow> int \<times> int \<Rightarrow> 'd ImageData" where
  "setPixelColor U imageData color pixel =
     imageData\<lparr>img_data := setColorAtPixel U imageData color (fst pixel) (snd pixel)\<rparr>"

text \<open>The two loops of \<open>fillLineAt\<close>, lines 70-75 and 76-81.\<close>

function fillLineAt_left ::
  "('d, 'c, 'css) FloodFillUtils \<Rightarrow> 'c fillFields \<Rightarrow> 'd ImageData \<Rightarrow> int \<Rightarrow> int \<Rightarrow> 'd ImageData \<times> int" where
  "fillLineAt_left U this imageData minX y =
     (case getPixelNeighbour imageData Left minX y of
        None \<Rightarrow> (imageData, minX)
      | Some pxl \<Rightarrow>
          if isValidTarget U this imageData pxl
          then fillLineAt_left U this (setPixelColor U imageData (newColor this) pxl) (fst pxl) y
          else (imageData, minX))"
  by pat_completeness auto
termination
  apply (relation "measure (\<lambda>(U, this, imageData, minX, y). unat (word_of_int minX :: 32 word))")
   apply simp
  subgoal premises nb for U this imageData minX y pxl
  proof -
    let ?w = "word_of_int minX :: 32 word"
    have e: "toInt32 (toInt32 minX - 1) = sint (?w - 1)"
      by (simp add: toInt32_def)
    from nb(1) have p: "fst pxl = sint (?w - 1)" and nn: "0 \<le> sint (?w - 1)"
      by (auto simp: getPixelNeighbour_def e Let_def split: if_splits)
    have nz: "?w \<noteq> 0"
    proof
      assume "?w = 0"
      with nn show False by simp
    qed
    then have "unat (?w - 1) < unat ?w"
      by (simp add: unat_minus_one unat_gt_0)
    moreover have "(word_of_int (fst pxl) :: 32 word) = ?w - 1"
      by (simp add: p)
    ultimately show ?thesis by simp
  qed
  done

function fillLineAt_right ::
  "('d, 'c, 'css) FloodFillUtils \<Rightarrow> 'c fillFields \<Rightarrow> 'd ImageData \<Rightarrow> int \<Rightarrow> int \<Rightarrow> 'd ImageData \<times> int" where
  "fillLineAt_right U this imageData maxX y =
     (case getPixelNeighbour imageData Right maxX y of
        None \<Rightarrow> (imageData, maxX)
      | Some pxl \<Rightarrow>
          if isValidTarget U this imageData pxl
          then fillLineAt_right U this (setPixelColor U imageData (newColor this) pxl) (fst pxl) y
          else (imageData, maxX))"
  by pat_completeness auto
termination
  apply (relation "measure (\<lambda>(U, this, imageData, maxX, y). nat (int (img_width imageData) - toInt32 maxX))")
   apply simp
  subgoal premises nb for U this imageData maxX y pxl
  proof -
    let ?w = "word_of_int maxX :: 32 word"
    have e: "toInt32 (toInt32 maxX + 1) = sint (?w + 1)"
      by (simp add: toInt32_def)
    from nb(1) have p: "fst pxl = sint (?w + 1)" and nn: "0 \<le> sint (?w + 1)"
      and lt: "sint (?w + 1) < int (img_width imageData)"
      by (auto simp: getPixelNeighbour_def e Let_def split: if_splits)
    have idem: "toInt32 (fst pxl) = fst pxl"
      by (simp add: p toInt32_def)
    have g: "sint (word_of_int k :: 32 word) = k" if "- (2 ^ 31) \<le> k" "k < 2 ^ 31" for k :: int
      using that by (simp add: sint_sbintrunc' signed_take_bit_int_eq_self)
    have w1: "(word_of_int (sint ?w + 1) :: 32 word) = ?w + 1" by simp
    have lo: "- (2 ^ 31) \<le> sint ?w" using sint_ge [of ?w] by simp
    have up: "sint (?w + 1) = sint ?w + 1"
    proof (cases "sint ?w + 1 < 2 ^ 31")
      case True
      from lo True have "sint (word_of_int (sint ?w + 1) :: 32 word) = sint ?w + 1"
        by (intro g) simp_all
      then show ?thesis by (simp only: w1)
    next
      case False
      with sint_lt [of ?w] have "sint ?w = 2 ^ 31 - 1" by simp
      then have "(word_of_int (sint ?w) :: 32 word) = word_of_int (2 ^ 31 - 1)" by simp
      then have "?w = word_of_int (2 ^ 31 - 1)" by simp
      then have "sint (?w + 1) = sint (word_of_int (2 ^ 31 - 1) + 1 :: 32 word)" by simp
      also have "\<dots> < 0" by simp
      finally show ?thesis using nn by simp
    qed
    from lt show ?thesis
      by (simp add: idem setPixelColor_def) (simp add: p up toInt32_def)
  qed
  done

text \<open>\<open>fillLineAt\<close>, lines 63-83: the span \<open>[minX, maxX]\<close> and the image after it.\<close>

definition fillLineAt ::
  "('d, 'c, 'css) FloodFillUtils \<Rightarrow> 'c fillFields \<Rightarrow> 'd ImageData \<Rightarrow> int \<Rightarrow> int \<Rightarrow> (int \<times> int) \<times> 'd ImageData" where
  "fillLineAt U this imageData x y =
     (if \<not> isValidTarget U this imageData (x, y) then ((- 1, - 1), imageData)
      else
        (let img1 = setPixelColor U imageData (newColor this) (x, y);
             (img2, minX) = fillLineAt_left U this img1 x y;
             (img3, maxX) = fillLineAt_right U this img2 x y
         in ((minX, maxX), img3)))"

text \<open>
  \<open>fillQueue\<close>, lines 85-117. \<open>_queue\<close> is used as a stack (\<open>push\<close> and \<open>pop\<close>); here
  its top is the head of the list. The two nested loops are one function with the place
  in the code as an argument: \<open>Popping\<close> is the test of the outer loop, \<open>Scanning\<close>
  the test of the inner loop for a line and a column \<open>currX\<close>. The first argument
  bounds the number of tests; \<open>None\<close> says that the loops have not ended within it.
\<close>

datatype place = Popping | Scanning lineQueueItem int

fun fillQueue ::
  "nat \<Rightarrow> ('d, 'c, 'css) FloodFillUtils \<Rightarrow> 'c fillFields \<Rightarrow> 'd ImageData \<Rightarrow> lineQueueItem list \<Rightarrow> place
     \<Rightarrow> 'd ImageData option" where
  "fillQueue 0 U this imageData queue pl = None"
| "fillQueue (Suc n) U this imageData [] Popping = Some imageData"
| "fillQueue (Suc n) U this imageData (line # queue) Popping =
     fillQueue n U this imageData queue (Scanning line (fst line))"
| "fillQueue (Suc n) U this imageData queue (Scanning (startX, endX, y, parentY) currX) =
     (if currX \<noteq> - 1 \<and> currX \<le> endX
      then
        (let ((lineStart, lineEnd), img1) = fillLineAt U this imageData currX y;
             queue1 =
               (if lineStart \<noteq> - 1
                then
                  (if lineStart \<ge> startX \<and> lineEnd \<le> endX \<and> parentY \<noteq> - 1
                   then
                     (let q1 = (if parentY < y \<and> y + 1 < int (img_height img1)
                                then (lineStart, lineEnd, y + 1, y) # queue else queue)
                      in if parentY > y \<and> y > 0 then (lineStart, lineEnd, y - 1, y) # q1 else q1)
                   else
                     (let q1 = (if y > 0 then (lineStart, lineEnd, y - 1, y) # queue else queue)
                      in if y + 1 < int (img_height img1) then (lineStart, lineEnd, y + 1, y) # q1 else q1))
                else queue);
             currX1 = (if lineEnd = - 1 \<and> currX \<le> endX then currX + 1 else lineEnd + 1)
         in fillQueue n U this img1 queue1 (Scanning (startX, endX, y, parentY) currX1))
      else fillQueue n U this imageData queue Popping)"

text \<open>\<open>fill\<close>, lines 30-42: the image after the call.\<close>

definition fill ::
  "nat \<Rightarrow> ('d, 'c, 'css) FloodFillUtils \<Rightarrow> 'd ImageData \<Rightarrow> 'css \<Rightarrow> int \<Rightarrow> int \<Rightarrow> real \<Rightarrow> 'd ImageData option" where
  "fill fuel U imageData color x y tol =
     (let this = \<lparr>replacedColor = getColorAtPixel U imageData x y,
                  newColor = colorToRGBA U color,
                  tolerance = tol\<rparr>
      in if isSameColor U (replacedColor this) (newColor this) (tolerance this)
         then Some imageData
         else fillQueue fuel U this imageData [(x, x, y, - 1)] Popping)"

subsection \<open>Vocabulary for the properties of the span fill\<close>

definition inRaster :: "'d ImageData \<Rightarrow> int \<Rightarrow> int \<Rightarrow> bool" where
  "inRaster img x y \<longleftrightarrow> 0 \<le> x \<and> x < int (img_width img) \<and> 0 \<le> y \<and> y < int (img_height img)"

text \<open>
  What the properties below need of \<open>getColorAtPixel\<close> and \<open>setColorAtPixel\<close>: on
  the images that satisfy \<open>ok\<close>, setting a pixel of the raster keeps \<open>ok\<close> and changes
  the colour read at that pixel and at no other pixel of the raster.
\<close>

definition rasterLaw :: "('d, 'c, 'css) FloodFillUtils \<Rightarrow> ('d ImageData \<Rightarrow> bool) \<Rightarrow> bool" where
  "rasterLaw U ok \<longleftrightarrow>
     (\<forall>img c x y. ok img \<and> inRaster img x y \<longrightarrow>
        ok (img\<lparr>img_data := setColorAtPixel U img c x y\<rparr>) \<and>
        (\<forall>x' y'. inRaster img x' y' \<longrightarrow>
           getColorAtPixel U (img\<lparr>img_data := setColorAtPixel U img c x y\<rparr>) x' y' =
             (if x' = x \<and> y' = y then c else getColorAtPixel U img x' y')))"

definition sameSize :: "'d ImageData \<Rightarrow> 'd ImageData \<Rightarrow> bool" where
  "sameSize img img' \<longleftrightarrow> img_width img' = img_width img \<and> img_height img' = img_height img"

text \<open>
  A maximal span of valid targets of row \<open>y\<close> around column \<open>x\<close>, and an image that
  differs from another one by the colour \<open>c\<close> on a span of row \<open>y\<close>.
\<close>

definition isSpanOf ::
  "('d, 'c, 'css) FloodFillUtils \<Rightarrow> 'c fillFields \<Rightarrow> 'd ImageData \<Rightarrow> int \<Rightarrow> int \<Rightarrow> int \<times> int \<Rightarrow> bool" where
  "isSpanOf U this img x y seg \<longleftrightarrow>
     0 \<le> fst seg \<and> fst seg \<le> x \<and> x \<le> snd seg \<and> snd seg < int (img_width img) \<and>
     (\<forall>i. fst seg \<le> i \<and> i \<le> snd seg \<longrightarrow> isValidTarget U this img (i, y)) \<and>
     (fst seg = 0 \<or> \<not> isValidTarget U this img (fst seg - 1, y)) \<and>
     (snd seg = int (img_width img) - 1 \<or> \<not> isValidTarget U this img (snd seg + 1, y))"

definition paintedSpan ::
  "('d, 'c, 'css) FloodFillUtils \<Rightarrow> 'c \<Rightarrow> 'd ImageData \<Rightarrow> int \<Rightarrow> int \<times> int \<Rightarrow> 'd ImageData \<Rightarrow> bool" where
  "paintedSpan U c img y seg img' \<longleftrightarrow>
     sameSize img img' \<and>
     (\<forall>i j. inRaster img i j \<longrightarrow>
        getColorAtPixel U img' i j =
          (if j = y \<and> fst seg \<le> i \<and> i \<le> snd seg then c else getColorAtPixel U img i j))"

text \<open>
  The fields as \<open>fill\<close> sets them for a seed, and the queue after the seed's span:
  the row below pushed last, hence on top.
\<close>

definition seedFields ::
  "('d, 'c, 'css) FloodFillUtils \<Rightarrow> 'd ImageData \<Rightarrow> 'css \<Rightarrow> int \<Rightarrow> int \<Rightarrow> real \<Rightarrow> 'c fillFields" where
  "seedFields U img color x y tol =
     \<lparr>replacedColor = getColorAtPixel U img x y, newColor = colorToRGBA U color, tolerance = tol\<rparr>"

definition rowsAboveAndBelow :: "'d ImageData \<Rightarrow> int \<Rightarrow> int \<times> int \<Rightarrow> lineQueueItem list" where
  "rowsAboveAndBelow img y seg =
     (if y + 1 < int (img_height img) then [(fst seg, snd seg, y + 1, y)] else []) @
     (if y > 0 then [(fst seg, snd seg, y - 1, y)] else [])"

text \<open>
  The rows that \<open>fillQueue\<close> queues for the span \<open>seg\<close> that it has found while scanning
  the queued line \<open>line\<close>: the rows immediately above and below, or, when the span lies
  within the line and the line was queued from a parent row, only the row on the side
  away from the parent. Rows outside the image are never queued, and the row pushed last
  is on top.
\<close>

definition queuedRows :: "'d ImageData \<Rightarrow> lineQueueItem \<Rightarrow> int \<times> int \<Rightarrow> lineQueueItem list" where
  "queuedRows img line seg =
     (case line of (startX, endX, y, parentY) \<Rightarrow>
        if startX \<le> fst seg \<and> snd seg \<le> endX \<and> parentY \<noteq> - 1
        then (if y < parentY \<and> 0 < y then [(fst seg, snd seg, y - 1, y)] else []) @
             (if parentY < y \<and> y + 1 < int (img_height img) then [(fst seg, snd seg, y + 1, y)] else [])
        else rowsAboveAndBelow img y seg)"

text \<open>The images whose coordinates are 32-bit integers, on which \<open>v | 0\<close> changes no coordinate.\<close>

definition fitsInt32 :: "'d ImageData \<Rightarrow> bool" where
  "fitsInt32 img \<longleftrightarrow> int (img_width img) < 2 ^ 31 \<and> int (img_height img) < 2 ^ 31"

text \<open>
  Modelled from the spec: the colour helpers of \<open>./FloodFillUtils\<close> (\<open>ColorRGBA\<close>,
  \<open>isSameColor\<close>, \<open>getColorAtPixel\<close>, \<open>setColorAtPixel\<close>, \<open>colorToRGBA\<close>) are
  imported by FloodFill.js and are not among the sources. The specification has a raster
  of \<open>width \<times> height\<close> colour values, two colours being the same when their distance,
  taken per channel, is within the tolerance (\<open>colorDistance(a, b) <= tolerance\<close>), so
  that tolerance 0 asks for equal colours. The raster is a list of colours, row after
  row; the colour to fill with is given as a \<open>ColorRGBA\<close>.
\<close>

record ColorRGBA =
  red :: int
  green :: int
  blue :: int
  alpha :: int

text \<open>Modelled from the spec: the colour distance of the missing FloodFillUtils, the largest difference of a channel.\<close>

definition colorDistance :: "ColorRGBA \<Rightarrow> ColorRGBA \<Rightarrow> int" where
  "colorDistance c1 c2 =
     max (max \<bar>red c1 - red c2\<bar> \<bar>green c1 - green c2\<bar>)
         (max \<bar>blue c1 - blue c2\<bar> \<bar>alpha c1 - alpha c2\<bar>)"

text \<open>Modelled from the spec: \<open>isSameColor\<close> of the missing FloodFillUtils, a colour distance within the tolerance.\<close>

definition rgba_isSameColor :: "ColorRGBA \<Rightarrow> ColorRGBA \<Rightarrow> real \<Rightarrow> bool" where
  "rgba_isSameColor c1 c2 tol \<longleftrightarrow> real_of_int (colorDistance c1 c2) \<le> tol"

text \<open>Modelled from the spec: \<open>getColorAtPixel\<close> of the missing FloodFillUtils, the colour of the raster at column \<open>x\<close> of row \<open>y\<close>.\<close>

definition raster_getColorAtPixel :: "ColorRGBA list ImageData \<Rightarrow> int \<Rightarrow> int \<Rightarrow> ColorRGBA" where
  "raster_getColorAtPixel img x y = img_data img ! nat (y * int (img_width img) + x)"

text \<open>Modelled from the spec: \<open>setColorAtPixel\<close> of the missing FloodFillUtils, the raster with that colour changed.\<close>

definition raster_setColorAtPixel :: "ColorRGBA list ImageData \<Rightarrow> ColorRGBA \<Rightarrow> int \<Rightarrow> int \<Rightarrow> ColorRGBA list" where
  "raster_setColorAtPixel img c x y = (img_data img)[nat (y * int (img_width img) + x) := c]"

text \<open>Modelled from the spec: \<open>colorToRGBA\<close> of the missing FloodFillUtils, for a colour that is given as a \<open>ColorRGBA\<close>.\<close>

definition rgba_colorToRGBA :: "ColorRGBA \<Rightarrow> ColorRGBA" where
  "rgba_colorToRGBA c = c"

text \<open>Modelled from the spec: the four helpers of the missing FloodFillUtils together.\<close>

definition rasterUtils :: "(ColorRGBA list, ColorRGBA, ColorRGBA) FloodFillUtils" where
  "rasterUtils =
     \<lparr>isSameColor = rgba_isSameColor, setColorAtPixel = raster_setColorAtPixel,
      getColorAtPixel = raster_getColorAtPixel, colorToRGBA = rgba_colorToRGBA\<rparr>"

text \<open>The rasters whose list of colours has one colour for each pixel.\<close>

definition rasterOk :: "ColorRGBA list ImageData \<Rightarrow> bool" where
  "rasterOk img \<longleftrightarrow> length (img_data img) = img_width img * img_height img"

text \<open>Colours and a 3\<times>3 image, black but for two white pixels at the left of row 1.\<close>

definition white :: ColorRGBA where "white = \<lparr>red = 255, green = 255, blue = 255, alpha = 255\<rparr>"

definition black :: ColorRGBA where "black = \<lparr>red = 0, green = 0, blue = 0, alpha = 255\<rparr>"

definition redColor :: ColorRGBA where "redColor = \<lparr>red = 255, green = 0, blue = 0, alpha = 255\<rparr>"

definition exampleImage :: "ColorRGBA list ImageData" where
  "exampleImage =
     \<lparr>img_width = 3, img_height = 3,
      img_data = [black, black, black, white, white, black, black, black, black]\<rparr>"

text \<open>
  A 3\<times>3 image whose white pixels are joined through the middle column, with the
  fields of a fill with red at the seed (1,1), and what such a fill makes of it, first
  of the row of the seed, then of the whole image.
\<close>

definition stairImage :: "ColorRGBA list ImageData" where
  "stairImage =
     \<lparr>img_width = 3, img_height = 3,
      img_data = [white, white, black, black, white, black, black, white, white]\<rparr>"

definition stairFields :: "ColorRGBA fillFields" where
  "stairFields = \<lparr>replacedColor = white, newColor = redColor, tolerance = 0\<rparr>"

definition stairSeedRow :: "ColorRGBA list ImageData" where
  "stairSeedRow =
     \<lparr>img_width = 3, img_height = 3,
      img_data = [white, white, black, black, redColor, black, black, white, white]\<rparr>"

definition stairLastRow :: "ColorRGBA list ImageData" where
  "stairLastRow =
     \<lparr>img_width = 3, img_height = 3,
      img_data = [white, white, black, black, redColor, black, black, redColor, redColor]\<rparr>"

definition stairFilled :: "ColorRGBA list ImageData" where
  "stairFilled =
     \<lparr>img_width = 3, img_height = 3,
      img_data = [redColor, redColor, black, black, redColor, black, black, redColor, redColor]\<rparr>"


section \<open>Properties of \<open>floodFill\<close>\<close>

subsection \<open>A seed outside the buffer\<close>

lemma readU32_neq_minus1: "readU32 xs i \<noteq> Some (- 1)"
  by (auto simp: readU32_def) (metis uint_ge_0 not_one_le_zero neg_0_le_iff_le)

lemma getPixel_sentinel_iff: "getPixel pd x y = Some (- 1) \<longleftrightarrow> \<not> inBounds pd x y"
  by (auto simp: getPixel_def inBounds_def readU32_neq_minus1)

lemma oob_neighbour:
  assumes "\<not> inBounds pd x y"
  shows "\<not> inBounds pd x (y - 1) \<or> \<not> inBounds pd x (y + 1) \<or> \<not> inBounds pd (x - 1) y \<or> \<not> inBounds pd (x + 1) y"
  using assms by (auto simp: inBounds_def)

lemma inBounds_data_update [simp]: "inBounds (pd\<lparr>data := d\<rparr>) x y = inBounds pd x y"
  by (simp add: inBounds_def)

lemma floodFill_loop_sentinel_diverges:
  "\<exists>p \<in> set st. \<not> inBounds pd (fst p) (snd p) \<Longrightarrow> floodFill_loop n (Some (- 1)) c pd st = None"
proof (induction n arbitrary: pd st)
  case 0
  then show ?case by (cases st) auto
next
  case (Suc n)
  then obtain x y rest where st: "st = (x, y) # rest" by (cases st) auto
  show ?case
  proof (cases "inBounds pd x y")
    case True
    with Suc.prems st have "\<exists>p \<in> set rest. \<not> inBounds pd (fst p) (snd p)" by auto
    from Suc.IH [OF this] True show ?thesis
      by (simp add: st getPixel_sentinel_iff)
  next
    case False
    let ?pd = "pd\<lparr>data := writeU32 (data pd) (y * int (width pd) + x) c\<rparr>"
    let ?st = "(x, y - 1) # (x, y + 1) # (x - 1, y) # (x + 1, y) # rest"
    from oob_neighbour [OF False]
    have "\<exists>p \<in> set ?st. \<not> inBounds ?pd (fst p) (snd p)" by auto
    from Suc.IH [OF this] False show ?thesis
      by (simp add: st getPixel_sentinel_iff)
  qed
qed

text \<open>
  Claim C1. The specification wants a seed outside the buffer (\<open>x < 0\<close>, \<open>y < 0\<close>,
  \<open>x \<ge> width\<close> or \<open>y \<ge> height\<close>) to be rejected before any work, with the buffer
  unchanged and the rejection reported. The code does not do that: for such a seed
  \<open>getPixel\<close> gives the target colour \<open>-1\<close>, which differs from every fill colour, so the
  loop is entered; there every pixel outside the bounds reads as \<open>-1\<close> again and matches
  the target, so the stack never becomes empty. Whatever the number of iterations allowed,
  \<open>floodFill\<close> has not returned.
\<close>

theorem floodFill_seed_outside_never_returns:
  assumes "x < 0 \<or> y < 0 \<or> x \<ge> int (width pd) \<or> y \<ge> int (height pd)"
  shows "floodFill fuel pd x y c = None"
proof -
  have nb: "\<not> inBounds pd x y" using assms by (auto simp: inBounds_def)
  then have t: "getPixel pd x y = Some (- 1)" by (simp add: getPixel_sentinel_iff)
  have "(- 1 :: int) \<noteq> uint c" 
    by (metis uint_ge_0 not_one_le_zero neg_0_le_iff_le) 
  with t floodFill_loop_sentinel_diverges [of "[(x, y)]" pd fuel c] nb
  show ?thesis by (simp add: floodFill_def)
qed

theorem floodFill_seed_outside_never_returns_witness:
  "(2 < (0 :: int) \<or> (0 :: int) < 0 \<or>
      2 \<ge> int (width \<lparr>width = 2, height = 2, data = [0xFFFFFFFF, 0xFFFFFFFF, 0xFFFFFFFF, 0xFFFFFFFF]\<rparr>) \<or>
      0 \<ge> int (height \<lparr>width = 2, height = 2, data = [0xFFFFFFFF, 0xFFFFFFFF, 0xFFFFFFFF, 0xFFFFFFFF]\<rparr>)) \<and>
   floodFill 1000
     \<lparr>width = 2, height = 2, data = [0xFFFFFFFF, 0xFFFFFFFF, 0xFFFFFFFF, 0xFFFFFFFF]\<rparr> 2 0 0xFF0000FF = None"
  using floodFill_seed_outside_never_returns
    [of 2 0 "\<lparr>width = 2, height = 2, data = [0xFFFFFFFF, 0xFFFFFFFF, 0xFFFFFFFF, 0xFFFFFFFF]\<rparr>"
        1000 "0xFF0000FF"]
  by simp

subsection \<open>A seed inside the buffer\<close>

lemma index_in_range:
  assumes "inBounds pd x y"
  shows "0 \<le> y * int (width pd) + x" and "y * int (width pd) + x < int (width pd * height pd)"
proof -
  from assms have b: "0 \<le> x" "x < int (width pd)" "0 \<le> y" "y + 1 \<le> int (height pd)"
    by (auto simp: inBounds_def)
  show "0 \<le> y * int (width pd) + x" using b by simp
  have "(y + 1) * int (width pd) \<le> int (height pd) * int (width pd)"
    using b(4) by (intro mult_right_mono) auto
  then show "y * int (width pd) + x < int (width pd * height pd)"
    using b(2) by (simp add: algebra_simps)
qed

lemma index_inj:
  assumes "inBounds pd x y" "inBounds pd x' y'"
    and "y * int (width pd) + x = y' * int (width pd) + x'"
  shows "x = x' \<and> y = y'"
proof -
  from assms(1,2) have b: "0 \<le> x" "x < int (width pd)" "0 \<le> x'" "x' < int (width pd)"
    by (auto simp: inBounds_def)
  have "(y * int (width pd) + x) div int (width pd) = y" using b by simp
  moreover have "(y' * int (width pd) + x') div int (width pd) = y'" using b by simp
  ultimately have "y = y'" using assms(3) by simp
  with assms(3) show ?thesis by simp
qed

lemma getPixel_inBounds:
  assumes "inBounds pd x y" "length (data pd) = width pd * height pd"
  shows "getPixel pd x y = Some (uint (pixelAt pd x y))"
  using assms index_in_range [OF assms(1)]
  by (auto simp: getPixel_def readU32_def pixelAt_def inBounds_def)

lemma getPixel_color_iff:
  assumes "length (data pd) = width pd * height pd"
  shows "getPixel pd x y = Some (uint S) \<longleftrightarrow> inBounds pd x y \<and> pixelAt pd x y = S"
proof (cases "inBounds pd x y")
  case True
  then show ?thesis by (simp add: getPixel_inBounds [OF True assms] word_uint_eq_iff)
next
  case False
  then have "getPixel pd x y = Some (- 1)" by (auto simp: getPixel_def inBounds_def)
  moreover have "(- 1 :: int) \<noteq> uint S"
    by (metis uint_ge_0 not_one_le_zero neg_0_le_iff_le)
  ultimately show ?thesis using False by simp
qed

lemma pixelAt_write:
  assumes "inBounds pd x y" "inBounds pd x' y'" "length (data pd) = width pd * height pd"
  shows "pixelAt (pd\<lparr>data := writeU32 (data pd) (y * int (width pd) + x) c\<rparr>) x' y' =
         (if x' = x \<and> y' = y then c else pixelAt pd x' y')"
proof -
  note r0 = index_in_range [OF assms(1)] index_in_range [OF assms(2)]
  have r: "nat (y * int (width pd) + x) < length (data pd)"
    "nat (y' * int (width pd) + x') < length (data pd)"
    using r0 assms(3) by (simp_all add: nat_less_iff)
  have w: "writeU32 (data pd) (y * int (width pd) + x) c = (data pd)[nat (y * int (width pd) + x) := c]"
    using r0 assms(3) by (simp add: writeU32_def)
  show ?thesis
  proof (cases "x' = x \<and> y' = y")
    case True
    then show ?thesis using r by (simp add: pixelAt_def w)
  next
    case False
    then have "y * int (width pd) + x \<noteq> y' * int (width pd) + x'"
      using index_inj [OF assms(1,2)] by auto
    then have "nat (y * int (width pd) + x) \<noteq> nat (y' * int (width pd) + x')"
      using r0 by auto
    then show ?thesis using False r by (auto simp: pixelAt_def w)
  qed
qed

lemma countColor_update:
  assumes "i < length xs" "xs ! i = S" "c \<noteq> S"
  shows "Suc (countColor S (xs[i := c])) = countColor S xs"
proof -
  have xs: "xs = take i xs @ xs ! i # drop (Suc i) xs"
    using assms(1) by (simp add: id_take_nth_drop)
  have "xs[i := c] = take i xs @ c # drop (Suc i) xs"
    using assms(1) by (simp add: upd_conv_take_nth_drop)
  then have "countColor S (xs[i := c]) =
      length (filter (\<lambda>v. v = S) (take i xs)) + length (filter (\<lambda>v. v = S) (drop (Suc i) xs))"
    using assms(3) by (simp add: countColor_def)
  moreover have "countColor S xs =
      length (filter (\<lambda>v. v = S) (take i xs)) + Suc (length (filter (\<lambda>v. v = S) (drop (Suc i) xs)))"
    unfolding countColor_def by (subst xs) (simp add: assms(2))
  ultimately show ?thesis by simp
qed


lemma inBounds_sameShape: "sameShape pd0 pd \<Longrightarrow> inBounds pd x y = inBounds pd0 x y"
  by (simp add: sameShape_def inBounds_def)

lemma adjacent4_cases:
  "adjacent4 (x, y) q \<longleftrightarrow> q = (x, y - 1) \<or> q = (x, y + 1) \<or> q = (x - 1, y) \<or> q = (x + 1, y)"
  by (cases q) (auto simp: adjacent4_def)

lemma fillInv_match:
  assumes inv: "fillInv pd0 S c seed pd ((x, y) # rest)"
    and wf0: "wellFormed pd0" and cS: "c \<noteq> S"
    and m: "getPixel pd x y = Some (uint S)"
  defines "pd' \<equiv> pd\<lparr>data := writeU32 (data pd) (y * int (width pd) + x) c\<rparr>"
  shows "fillInv pd0 S c seed pd' ((x, y - 1) # (x, y + 1) # (x - 1, y) # (x + 1, y) # rest)"
    and "Suc (countColor S (data pd')) = countColor S (data pd)"
proof -
  from inv have sh: "sameShape pd0 pd" by (simp add: fillInv_def)
  then have wf: "length (data pd) = width pd * height pd"
    using wf0 by (simp add: sameShape_def wellFormed_def)
  from m have ib: "inBounds pd x y" and col: "pixelAt pd x y = S"
    by (simp_all add: getPixel_color_iff [OF wf])
  have ib0: "inBounds pd0 x y" using ib sh by (simp add: inBounds_sameShape)
  from inv have I1: "\<forall>a b. inBounds pd0 a b \<longrightarrow>
        pixelAt pd a b = pixelAt pd0 a b \<or>
        (pixelAt pd0 a b = S \<and> pixelAt pd a b = c \<and> reach pd0 S seed (a, b))"
    unfolding fillInv_def by blast
  from inv have I2: "\<forall>p \<in> set ((x, y) # rest).
        inBounds pd0 (fst p) (snd p) \<and> pixelAt pd0 (fst p) (snd p) = S \<longrightarrow> reach pd0 S seed p"
    unfolding fillInv_def by blast
  from inv have I3: "\<forall>p q. reach pd0 S seed p \<and> pixelAt pd (fst p) (snd p) = c \<and> adjacent4 p q \<and>
         inBounds pd0 (fst q) (snd q) \<and> pixelAt pd0 (fst q) (snd q) = S \<longrightarrow>
         pixelAt pd (fst q) (snd q) = c \<or> q \<in> set ((x, y) # rest)"
    unfolding fillInv_def by blast
  from inv have I4: "pixelAt pd (fst seed) (snd seed) = c \<or> seed \<in> set ((x, y) # rest)"
    and ibseed: "inBounds pd0 (fst seed) (snd seed)"
    unfolding fillInv_def by blast+
  have col0: "pixelAt pd0 x y = S" using I1 [rule_format, OF ib0] col cS by metis
  have rxy: "reach pd0 S seed (x, y)" using I2 ib0 col0 by simp
  have pa: "\<And>a b. inBounds pd0 a b \<Longrightarrow>
      pixelAt pd' a b = (if a = x \<and> b = y then c else pixelAt pd a b)"
    unfolding pd'_def using pixelAt_write [OF ib _ wf] sh by (simp add: inBounds_sameShape)
  have len: "length (writeU32 (data pd) (y * int (width pd) + x) c) = length (data pd)"
    by (simp add: writeU32_def)
  have sh': "sameShape pd0 pd'"
    using sh len by (simp add: sameShape_def pd'_def)
  let ?st = "(x, y - 1) # (x, y + 1) # (x - 1, y) # (x + 1, y) # rest"
  have J1: "\<forall>a b. inBounds pd0 a b \<longrightarrow>
        pixelAt pd' a b = pixelAt pd0 a b \<or>
        (pixelAt pd0 a b = S \<and> pixelAt pd' a b = c \<and> reach pd0 S seed (a, b))"
    using I1 pa col0 rxy by auto
  have J2: "\<forall>p \<in> set ?st. inBounds pd0 (fst p) (snd p) \<and> pixelAt pd0 (fst p) (snd p) = S
        \<longrightarrow> reach pd0 S seed p"
  proof (intro ballI impI)
    fix p assume p: "p \<in> set ?st"
      and h: "inBounds pd0 (fst p) (snd p) \<and> pixelAt pd0 (fst p) (snd p) = S"
    show "reach pd0 S seed p"
    proof (cases "p \<in> set rest")
      case True
      then show ?thesis using I2 h by simp
    next
      case False
      with p have "adjacent4 (x, y) p" by (auto simp: adjacent4_cases)
      then show ?thesis using reach_step [OF rxy] h by blast
    qed
  qed
  have J3: "\<forall>p q. reach pd0 S seed p \<and> pixelAt pd' (fst p) (snd p) = c \<and> adjacent4 p q \<and>
         inBounds pd0 (fst q) (snd q) \<and> pixelAt pd0 (fst q) (snd q) = S \<longrightarrow>
         pixelAt pd' (fst q) (snd q) = c \<or> q \<in> set ?st"
  proof (intro allI impI)
    fix p q
    assume h: "reach pd0 S seed p \<and> pixelAt pd' (fst p) (snd p) = c \<and> adjacent4 p q \<and>
         inBounds pd0 (fst q) (snd q) \<and> pixelAt pd0 (fst q) (snd q) = S"
    then have ibp: "inBounds pd0 (fst p) (snd p)" by (auto elim: reach.cases)
    show "pixelAt pd' (fst q) (snd q) = c \<or> q \<in> set ?st"
    proof (cases "p = (x, y)")
      case True
      with h have "q \<in> set ?st" by (auto simp: adjacent4_cases)
      then show ?thesis ..
    next
      case False
      then have "pixelAt pd (fst p) (snd p) = c"
        using h pa [OF ibp] by (cases p) (auto split: if_splits)
      with I3 h
      have "pixelAt pd (fst q) (snd q) = c \<or> q \<in> set ((x, y) # rest)" by blast
      then show ?thesis
      proof
        assume "pixelAt pd (fst q) (snd q) = c"
        then show ?thesis using h pa [of "fst q" "snd q"] by auto
      next
        assume "q \<in> set ((x, y) # rest)"
        then show ?thesis using h pa [of "fst q" "snd q"] by (cases q) auto
      qed
    qed
  qed
  have ibs: "pixelAt pd' (fst seed) (snd seed) = c \<or> seed \<in> set ?st"
  proof -
    from I4 show ?thesis
    proof
      assume a: "pixelAt pd (fst seed) (snd seed) = c"
      show ?thesis using pa [OF ibseed] a by auto
    next
      assume "seed \<in> set ((x, y) # rest)"
      then show ?thesis using pa [OF ib0] by (cases seed) auto
    qed
  qed
  show "fillInv pd0 S c seed pd' ?st"
    unfolding fillInv_def using sh' J1 J2 J3 ibs ibseed by blast
  have "nat (y * int (width pd) + x) < length (data pd)"
    using index_in_range [OF ib] wf by (simp add: nat_less_iff)
  moreover have "data pd ! nat (y * int (width pd) + x) = S"
    using col by (simp add: pixelAt_def)
  moreover have "writeU32 (data pd) (y * int (width pd) + x) c = (data pd)[nat (y * int (width pd) + x) := c]"
    using index_in_range [OF ib] wf by (simp add: writeU32_def)
  ultimately show "Suc (countColor S (data pd')) = countColor S (data pd)"
    using countColor_update [OF _ _ cS] by (simp add: pd'_def)
qed


lemma fillInv_skip:
  assumes inv: "fillInv pd0 S c seed pd ((x, y) # rest)"
    and wf0: "wellFormed pd0"
    and seedS: "pixelAt pd0 (fst seed) (snd seed) = S"
    and m: "getPixel pd x y \<noteq> Some (uint S)"
  shows "fillInv pd0 S c seed pd rest"
proof -
  from inv have sh: "sameShape pd0 pd" by (simp add: fillInv_def)
  then have wf: "length (data pd) = width pd * height pd"
    using wf0 by (simp add: sameShape_def wellFormed_def)
  from inv have I1: "\<forall>a b. inBounds pd0 a b \<longrightarrow>
        pixelAt pd a b = pixelAt pd0 a b \<or>
        (pixelAt pd0 a b = S \<and> pixelAt pd a b = c \<and> reach pd0 S seed (a, b))"
    unfolding fillInv_def by blast
  from inv have I2: "\<forall>p \<in> set ((x, y) # rest).
        inBounds pd0 (fst p) (snd p) \<and> pixelAt pd0 (fst p) (snd p) = S \<longrightarrow> reach pd0 S seed p"
    unfolding fillInv_def by blast
  from inv have I3: "\<forall>p q. reach pd0 S seed p \<and> pixelAt pd (fst p) (snd p) = c \<and> adjacent4 p q \<and>
         inBounds pd0 (fst q) (snd q) \<and> pixelAt pd0 (fst q) (snd q) = S \<longrightarrow>
         pixelAt pd (fst q) (snd q) = c \<or> q \<in> set ((x, y) # rest)"
    unfolding fillInv_def by blast
  from inv have I4: "pixelAt pd (fst seed) (snd seed) = c \<or> seed \<in> set ((x, y) # rest)"
    and ibseed: "inBounds pd0 (fst seed) (snd seed)"
    unfolding fillInv_def by blast+
  have popped: "inBounds pd0 x y \<Longrightarrow> pixelAt pd0 x y = S \<Longrightarrow> pixelAt pd x y = c"
  proof -
    assume ib0: "inBounds pd0 x y" and c0: "pixelAt pd0 x y = S"
    have "inBounds pd x y" using ib0 sh by (simp add: inBounds_sameShape)
    with m have "pixelAt pd x y \<noteq> S" by (simp add: getPixel_color_iff [OF wf])
    with I1 [rule_format, OF ib0] c0 show ?thesis by metis
  qed
  have J2: "\<forall>p \<in> set rest.
        inBounds pd0 (fst p) (snd p) \<and> pixelAt pd0 (fst p) (snd p) = S \<longrightarrow> reach pd0 S seed p"
    using I2 by simp
  have J3: "\<forall>p q. reach pd0 S seed p \<and> pixelAt pd (fst p) (snd p) = c \<and> adjacent4 p q \<and>
         inBounds pd0 (fst q) (snd q) \<and> pixelAt pd0 (fst q) (snd q) = S \<longrightarrow>
         pixelAt pd (fst q) (snd q) = c \<or> q \<in> set rest"
  proof (intro allI impI)
    fix p q
    assume h: "reach pd0 S seed p \<and> pixelAt pd (fst p) (snd p) = c \<and> adjacent4 p q \<and>
         inBounds pd0 (fst q) (snd q) \<and> pixelAt pd0 (fst q) (snd q) = S"
    with I3 have "pixelAt pd (fst q) (snd q) = c \<or> q \<in> set ((x, y) # rest)" by blast
    then show "pixelAt pd (fst q) (snd q) = c \<or> q \<in> set rest"
      using popped h by (cases q) auto
  qed
  have J4: "pixelAt pd (fst seed) (snd seed) = c \<or> seed \<in> set rest"
    using I4 popped ibseed seedS by (cases seed) auto
  show ?thesis
    unfolding fillInv_def using sh I1 J2 J3 J4 ibseed by blast
qed

lemma fillInv_done:
  assumes inv: "fillInv pd0 S c seed pd []"
    and seedS: "pixelAt pd0 (fst seed) (snd seed) = S" and cS: "c \<noteq> S"
  shows "fillResult pd0 S c seed pd"
proof -
  from inv have sh: "sameShape pd0 pd" by (simp add: fillInv_def)
  from inv have I1: "\<forall>a b. inBounds pd0 a b \<longrightarrow>
        pixelAt pd a b = pixelAt pd0 a b \<or>
        (pixelAt pd0 a b = S \<and> pixelAt pd a b = c \<and> reach pd0 S seed (a, b))"
    unfolding fillInv_def by blast
  from inv have I3: "\<forall>p q. reach pd0 S seed p \<and> pixelAt pd (fst p) (snd p) = c \<and> adjacent4 p q \<and>
         inBounds pd0 (fst q) (snd q) \<and> pixelAt pd0 (fst q) (snd q) = S \<longrightarrow>
         pixelAt pd (fst q) (snd q) = c"
    unfolding fillInv_def list.set(1) empty_iff by blast
  from inv have I4: "pixelAt pd (fst seed) (snd seed) = c"
    unfolding fillInv_def list.set(1) empty_iff by blast
  have filled: "reach pd0 S seed p \<Longrightarrow> pixelAt pd (fst p) (snd p) = c" for p
  proof (induction rule: reach.induct)
    case reach_seed
    show ?case by (rule I4)
  next
    case (reach_step p q)
    with I3 show ?case by blast
  qed
  have "\<forall>x y. inBounds pd0 x y \<longrightarrow>
        pixelAt pd x y = (if reach pd0 S seed (x, y) then c else pixelAt pd0 x y)"
  proof (intro allI impI)
    fix x y assume ib: "inBounds pd0 x y"
    show "pixelAt pd x y = (if reach pd0 S seed (x, y) then c else pixelAt pd0 x y)"
      using filled [of "(x, y)"] I1 [rule_format, OF ib] by auto
  qed
  with sh show ?thesis by (simp add: fillResult_def)
qed

lemma floodFill_loop_total:
  assumes "fillInv pd0 S c seed pd st" "wellFormed pd0"
    and "pixelAt pd0 (fst seed) (snd seed) = S" "c \<noteq> S"
    and "5 * countColor S (data pd) + length st \<le> n"
  shows "\<exists>pd'. floodFill_loop n (Some (uint S)) c pd st = Some pd' \<and> fillResult pd0 S c seed pd'"
  using assms
proof (induction n arbitrary: pd st)
  case 0
  then have "st = []" by simp
  with 0 show ?case by (simp add: fillInv_done)
next
  case (Suc n)
  show ?case
  proof (cases st)
    case Nil
    with Suc.prems show ?thesis by (simp add: fillInv_done)
  next
    case (Cons p rest)
    obtain x y where p: "p = (x, y)" by (cases p)
    note st = Cons [unfolded p]
    show ?thesis
    proof (cases "getPixel pd x y = Some (uint S)")
      case True
      let ?pd = "pd\<lparr>data := writeU32 (data pd) (y * int (width pd) + x) c\<rparr>"
      let ?st = "(x, y - 1) # (x, y + 1) # (x - 1, y) # (x + 1, y) # rest"
      from fillInv_match [OF Suc.prems(1) [unfolded st] Suc.prems(2) Suc.prems(4) True]
      have inv': "fillInv pd0 S c seed ?pd ?st"
        and cnt: "Suc (countColor S (data ?pd)) = countColor S (data pd)" by simp_all
      have "5 * countColor S (data ?pd) + length ?st \<le> n"
        using Suc.prems(5) cnt st by simp
      from Suc.IH [OF inv' Suc.prems(2,3,4) this] True show ?thesis
        by (simp add: st)
    next
      case False
      from fillInv_skip [OF Suc.prems(1) [unfolded st] Suc.prems(2,3) False]
      have inv': "fillInv pd0 S c seed pd rest" .
      have "5 * countColor S (data pd) + length rest \<le> n"
        using Suc.prems(5) st by simp
      from Suc.IH [OF inv' Suc.prems(2,3,4) this] False show ?thesis
        by (simp add: st)
    qed
  qed
qed

lemma reach_color: "reach pd S seed p \<Longrightarrow> inBounds pd (fst p) (snd p) \<and> pixelAt pd (fst p) (snd p) = S"
  by (induction rule: reach.induct) auto

lemma fillInv_init:
  assumes "inBounds pd x y" "pixelAt pd x y = S" "c \<noteq> S"
  shows "fillInv pd S c (x, y) pd [(x, y)]"
  unfolding fillInv_def using assms reach_color [of pd S "(x, y)"]
  by (auto simp: sameShape_def intro: reach_seed)

lemma floodFill_total:
  assumes wf: "wellFormed pd" and ib: "inBounds pd x y" and cS: "c \<noteq> pixelAt pd x y"
    and fuel: "5 * countColor (pixelAt pd x y) (data pd) + 1 \<le> fuel"
  shows "\<exists>pd'. floodFill fuel pd x y c = Some pd' \<and> fillResult pd (pixelAt pd x y) c (x, y) pd'"
proof -
  have g: "getPixel pd x y = Some (uint (pixelAt pd x y))"
    using getPixel_inBounds [OF ib] wf by (simp add: wellFormed_def)
  have ne: "uint (pixelAt pd x y) \<noteq> uint c" using cS by (simp add: word_uint_eq_iff)
  from floodFill_loop_total [OF fillInv_init [OF ib refl cS] wf _ cS, of fuel] fuel
  show ?thesis by (simp add: floodFill_def g ne)
qed

lemma floodFill_loop_mono:
  "floodFill_loop n t c pd st = Some r \<Longrightarrow> floodFill_loop (n + k) t c pd st = Some r"
proof (induction n t c pd st rule: floodFill_loop.induct)
  case (1 n t c pd)
  then show ?case by simp
next
  case (2 t c pd x y st)
  then show ?case by simp
next
  case (3 n t c pd x y st)
  then show ?case by (simp split: if_splits)
qed

lemma floodFill_loop_unique:
  assumes "floodFill_loop n t c pd st = Some r" "floodFill_loop m t c pd st = Some r'"
  shows "r = r'"
proof -
  have "floodFill_loop (n + m) t c pd st = Some r" using assms(1) by (rule floodFill_loop_mono)
  moreover have "floodFill_loop (m + n) t c pd st = Some r'" using assms(2) by (rule floodFill_loop_mono)
  ultimately show ?thesis by (simp add: add.commute)
qed

subsection \<open>Maximality and frame\<close>

lemma region4_reach:
  assumes reg: "region4 pd S R" and seed: "seed \<in> R"
  shows "reach pd S seed p \<longleftrightarrow> p \<in> R"
proof
  assume "reach pd S seed p"
  then show "p \<in> R"
  proof (induction rule: reach.induct)
    case reach_seed
    show ?case by (rule seed)
  next
    case (reach_step p q)
    with reg show ?case unfolding region4_def by blast
  qed
next
  assume p: "p \<in> R"
  let ?E = "{(a, b). a \<in> R \<and> b \<in> R \<and> adjacent4 a b}"
  from reg seed p have "(seed, p) \<in> ?E\<^sup>*" unfolding region4_def by blast
  then show "reach pd S seed p"
  proof (induction rule: rtrancl_induct)
    case base
    from reg seed show ?case unfolding region4_def by (blast intro: reach_seed)
  next
    case (step q r)
    then have "adjacent4 q r" "r \<in> R" by auto
    with reg step.IH show ?case unfolding region4_def by (blast intro: reach_step)
  qed
qed

text \<open>
  Claim C3. On a well-formed buffer with a 4-connected region \<open>R\<close> of uniform colour
  \<open>S\<close> that no further pixel of colour \<open>S\<close> touches, \<open>floodFill\<close> (which compares
  colours exactly, that is with tolerance 0) started at any seed of \<open>R\<close> with a colour
  \<open>c \<noteq> S\<close> returns, and the buffer it returns has colour \<open>c\<close> on the pixels of \<open>R\<close> and
  the former colour everywhere else. The loop ends within five iterations for every pixel
  of colour \<open>S\<close>, plus one. The witness is the 1\<times>3 buffer [white, white, black] filled
  with red from (0,0), which becomes [red, red, black].
\<close>

theorem floodFill_recolors_exactly_region:
  assumes "wellFormed pd" and "region4 pd S R" and "(x, y) \<in> R" and "c \<noteq> S"
    and "5 * countColor S (data pd) + 1 \<le> fuel"
  shows "\<exists>pd'. floodFill fuel pd x y c = Some pd' \<and> sameShape pd pd' \<and>
           (\<forall>a b. inBounds pd a b \<longrightarrow> pixelAt pd' a b = (if (a, b) \<in> R then c else pixelAt pd a b))"
proof -
  from assms(2,3) have ib: "inBounds pd x y" and col: "pixelAt pd x y = S"
    unfolding region4_def by auto
  from floodFill_total [OF assms(1) ib, of c fuel] assms(4,5) col
  obtain pd' where r: "floodFill fuel pd x y c = Some pd'" "fillResult pd S c (x, y) pd'"
    by auto
  from r(2) show ?thesis
    using r(1) by (auto simp: fillResult_def region4_reach [OF assms(2,3)])
qed

theorem floodFill_recolors_exactly_region_witness:
  "wellFormed \<lparr>width = 3, height = 1, data = [0xFFFFFFFF, 0xFFFFFFFF, 0xFF000000]\<rparr> \<and>
   region4 \<lparr>width = 3, height = 1, data = [0xFFFFFFFF, 0xFFFFFFFF, 0xFF000000]\<rparr> 0xFFFFFFFF {(0, 0), (1, 0)} \<and>
   (0xFF0000FF :: 32 word) \<noteq> 0xFFFFFFFF \<and>
   5 * countColor 0xFFFFFFFF [0xFFFFFFFF, 0xFFFFFFFF, 0xFF000000] + 1 \<le> (11 :: nat) \<and>
   floodFill 11 \<lparr>width = 3, height = 1, data = [0xFFFFFFFF, 0xFFFFFFFF, 0xFF000000]\<rparr> 0 0 0xFF0000FF =
     Some \<lparr>width = 3, height = 1, data = [0xFF0000FF, 0xFF0000FF, 0xFF000000]\<rparr>"
proof -
  let ?pd = "\<lparr>width = 3, height = 1, data = [0xFFFFFFFF, 0xFFFFFFFF, 0xFF000000 :: 32 word]\<rparr>"
  let ?R = "{(0, 0), (1, 0)} :: (int \<times> int) set"
  let ?E = "{(a, b). a \<in> ?R \<and> b \<in> ?R \<and> adjacent4 a b}"
  have wf: "wellFormed ?pd" by (simp add: wellFormed_def)
  have e1: "((0, 0), (1, 0)) \<in> ?E" and e2: "((1, 0), (0, 0)) \<in> ?E"
    by (simp_all add: adjacent4_def)
  have conn: "\<forall>p \<in> ?R. \<forall>q \<in> ?R. (p, q) \<in> ?E\<^sup>*"
    using e1 e2 by (auto intro: r_into_rtrancl)
  have uni: "\<forall>p \<in> ?R. inBounds ?pd (fst p) (snd p) \<and> pixelAt ?pd (fst p) (snd p) = 0xFFFFFFFF"
    by (simp add: inBounds_def pixelAt_def)
  have sur: "\<forall>p \<in> ?R. \<forall>q. adjacent4 p q \<and> inBounds ?pd (fst q) (snd q) \<and> q \<notin> ?R
         \<longrightarrow> pixelAt ?pd (fst q) (snd q) \<noteq> 0xFFFFFFFF"
    by (auto simp: adjacent4_def inBounds_def pixelAt_def)
  have reg: "region4 ?pd 0xFFFFFFFF ?R"
    unfolding region4_def using uni conn sur by blast
  have ne: "(0xFF0000FF :: 32 word) \<noteq> 0xFFFFFFFF" by simp
  have fu: "5 * countColor 0xFFFFFFFF (data ?pd) + 1 \<le> (11 :: nat)"
    by (simp add: countColor_def)
  from floodFill_recolors_exactly_region [OF wf reg _ ne fu, of 0 0]
  obtain pd' where r: "floodFill 11 ?pd 0 0 0xFF0000FF = Some pd'" "sameShape ?pd pd'"
     "\<forall>a b. inBounds ?pd a b \<longrightarrow> pixelAt pd' a b = (if (a, b) \<in> ?R then 0xFF0000FF else pixelAt ?pd a b)"
    by auto
  have "floodFill 11 ?pd 0 0 0xFF0000FF = Some \<lparr>width = 3, height = 1, data = [0xFF0000FF, 0xFF0000FF, 0xFF000000]\<rparr>"
    by code_simp
  with wf reg ne fu show ?thesis by simp
qed

text \<open>
  Claim C10. For a well-formed buffer, a seed inside it and any fill colour, \<open>floodFill\<close>
  returns, and in the buffer it returns every pixel whose colour differed from the colour
  of the seed pixel has kept its value (and the buffer its shape).
\<close>

theorem floodFill_keeps_other_colors:
  assumes "wellFormed pd" and "inBounds pd x y"
  shows "(\<exists>fuel pd'. floodFill fuel pd x y c = Some pd') \<and>
         (\<forall>fuel pd'. floodFill fuel pd x y c = Some pd' \<longrightarrow> sameShape pd pd' \<and>
            (\<forall>a b. inBounds pd a b \<and> pixelAt pd a b \<noteq> pixelAt pd x y \<longrightarrow> pixelAt pd' a b = pixelAt pd a b))"
proof (cases "c = pixelAt pd x y")
  case True
  have g: "getPixel pd x y = Some (uint c)"
    using getPixel_inBounds [OF assms(2)] assms(1) True by (simp add: wellFormed_def)
  then have "floodFill fuel pd x y c = Some pd" for fuel by (simp add: floodFill_def)
  then show ?thesis by (auto simp: sameShape_def)
next
  case False
  let ?S = "pixelAt pd x y"
  let ?n = "5 * countColor ?S (data pd) + 1"
  from floodFill_total [OF assms False, of ?n]
  obtain r where r: "floodFill ?n pd x y c = Some r" "fillResult pd ?S c (x, y) r" by auto
  have g: "getPixel pd x y = Some (uint ?S)"
    using getPixel_inBounds [OF assms(2)] assms(1) by (simp add: wellFormed_def)
  have ne: "uint ?S \<noteq> uint c" using False by (simp add: word_uint_eq_iff)
  have frame: "sameShape pd r \<and>
      (\<forall>a b. inBounds pd a b \<and> pixelAt pd a b \<noteq> ?S \<longrightarrow> pixelAt r a b = pixelAt pd a b)"
    using r(2) reach_color [of pd ?S "(x, y)"] by (fastforce simp: fillResult_def)
  have "pd' = r" if "floodFill fuel pd x y c = Some pd'" for fuel pd'
    using that r(1) floodFill_loop_unique [of fuel "Some (uint ?S)" c pd "[(x, y)]" pd' ?n r]
    by (simp add: floodFill_def g ne)
  with frame r(1) show ?thesis by blast
qed

theorem floodFill_keeps_other_colors_witness:
  "wellFormed \<lparr>width = 2, height = 2, data = [1, 1, 2, 1]\<rparr> \<and>
   inBounds \<lparr>width = 2, height = 2, data = [1, 1, 2, 1]\<rparr> 0 0 \<and>
   floodFill 21 \<lparr>width = 2, height = 2, data = [1, 1, 2, 1]\<rparr> 0 0 7 =
     Some \<lparr>width = 2, height = 2, data = [7, 7, 2, 7]\<rparr> \<and>
   pixelAt \<lparr>width = 2, height = 2, data = [7, 7, 2, 7]\<rparr> 0 1 = pixelAt \<lparr>width = 2, height = 2, data = [1, 1, 2, 1]\<rparr> 0 1"
proof -
  let ?pd = "\<lparr>width = 2, height = 2, data = [1, 1, 2, 1 :: 32 word]\<rparr>"
  let ?r = "\<lparr>width = 2, height = 2, data = [7, 7, 2, 7 :: 32 word]\<rparr>"
  have wf: "wellFormed ?pd" by (simp add: wellFormed_def)
  have ib: "inBounds ?pd 0 0" "inBounds ?pd 0 1" by (simp_all add: inBounds_def)
  have run: "floodFill 21 ?pd 0 0 7 = Some ?r" by code_simp
  have ne: "pixelAt ?pd 0 1 \<noteq> pixelAt ?pd 0 0" by (simp add: pixelAt_def)
  from floodFill_keeps_other_colors [OF wf ib(1), of 7] run ib(2) ne
  have "pixelAt ?r 0 1 = pixelAt ?pd 0 1" by blast
  with wf ib(1) run show ?thesis by simp
qed

section \<open>Properties of the state machine\<close>

subsection \<open>Wheel events during a gesture\<close>

text \<open>
  Claim C2. The specification wants every handler to return a state, and a wheel event
  in an active gesture state to be swallowed with the machine staying in that state.
  The code does not do that: \<open>handleMouseWheel\<close> of \<open>PanState\<close>,
  \<open>WaitForPinchState\<close>, \<open>ScaleOrPanState\<close>, \<open>TouchPanState\<close>,
  \<open>TouchScaleState\<close> and \<open>DrawingState\<close> is \<open>SUPPRESS_SCROLL\<close>, which returns the
  \<open>this\<close> of the module, \<open>undefined\<close>, and the host stores that as its state.
\<close>

theorem wheel_in_active_gesture_returns_no_state:
  "fst (handleMouseWheel (PanState p) e cd) = None \<and>
   fst (handleMouseWheel (WaitForPinchState w) e cd) = None \<and>
   fst (handleMouseWheel (ScaleOrPanState s) e cd) = None \<and>
   fst (handleMouseWheel (TouchPanState s) e cd) = None \<and>
   fst (handleMouseWheel (TouchScaleState s) e cd) = None \<and>
   fst (handleMouseWheel (DrawingState d) e cd) = None"
  by (simp add: SUPPRESS_SCROLL_def)

theorem wheel_in_active_gesture_returns_no_state_witness:
  "fst (handleMouseWheel (DrawingState True) (mouseEvent 5 5) (exampleCanvas ''Pencil'' False 1)) = None"
  using wheel_in_active_gesture_returns_no_state
    [of undefined "mouseEvent 5 5" "exampleCanvas ''Pencil'' False 1" undefined undefined True]
  by blast

subsection \<open>Waiting for a pinch\<close>

lemma wait_stays:
  assumes "length (touches e) < 2" "now - startTimestamp w < PINCH_TIMEOUT_MS"
    and "manhattan (clientPointFromEvent e) a < TOUCH_SLOP"
    and "startClientPoint w = Some a \<or> (startClientPoint w = None \<and> a = clientPointFromEvent e)"
  shows "handleDrawMove (WaitForPinchState w) now e cd =
     (WaitForPinchState (w\<lparr>deferredPoints := deferredPoints w @ [clientPointFromEvent e],
                             startClientPoint := Some a\<rparr>), cd)"
  using assms
  by (auto simp: WaitForPinchState_handleDrawMove_def Let_def manhattan_def)

lemma wait_gives_up:
  assumes "length (touches e) < 2"
    and "startClientPoint w = Some a \<or> (startClientPoint w = None \<and> a = clientPointFromEvent e)"
    and "now - startTimestamp w \<ge> PINCH_TIMEOUT_MS \<or> manhattan (clientPointFromEvent e) a \<ge> TOUCH_SLOP"
  shows "handleDrawMove (WaitForPinchState w) now e cd =
     asDrawingState (issueDeferredPoints (deferredPoints w @ [clientPointFromEvent e]) cd)"
  using assms
  by (auto simp: WaitForPinchState_handleDrawMove_def Let_def manhattan_def)

lemma calm_cong: "startTimestamp w' = startTimestamp w \<Longrightarrow> calm w' a = calm w a"
  by (rule ext) (simp add: calm_def)

lemma wait_calm_run:
  assumes "list_all (calm w a) es"
    and "startClientPoint w = Some a \<or>
         (startClientPoint w = None \<and> (es \<noteq> [] \<longrightarrow> a = clientPointFromEvent (snd (hd es))))"
  shows "handleDrawMoves (WaitForPinchState w) es cd =
     (WaitForPinchState (w\<lparr>deferredPoints := deferredPoints w @ map (\<lambda>te. clientPointFromEvent (snd te)) es,
                             startClientPoint := (if es = [] then startClientPoint w else Some a)\<rparr>), cd)"
  using assms
proof (induction es arbitrary: w)
  case Nil
  then show ?case by simp
next
  case (Cons te es)
  obtain t e where te: "te = (t, e)" by (cases te)
  let ?w = "w\<lparr>deferredPoints := deferredPoints w @ [clientPointFromEvent e], startClientPoint := Some a\<rparr>"
  from Cons.prems te have c: "length (touches e) < 2" "t - startTimestamp w < PINCH_TIMEOUT_MS"
    "manhattan (clientPointFromEvent e) a < TOUCH_SLOP" by (auto simp: calm_def)
  from Cons.prems(2) te
  have an: "startClientPoint w = Some a \<or> (startClientPoint w = None \<and> a = clientPointFromEvent e)"
    by auto
  have step: "handleDrawMove (WaitForPinchState w) t e cd = (WaitForPinchState ?w, cd)"
    by (rule wait_stays [OF c an])
  have p1: "list_all (calm ?w a) es"
    using Cons.prems(1) by (simp add: calm_cong [of ?w w])
  have p2: "startClientPoint ?w = Some a \<or>
         (startClientPoint ?w = None \<and> (es \<noteq> [] \<longrightarrow> a = clientPointFromEvent (snd (hd es))))"
    by simp
  note ih = Cons.IH [OF p1 p2]
  have "handleDrawMoves (WaitForPinchState w) ((t, e) # es) cd =
        handleDrawMoves (WaitForPinchState ?w) es cd"
    by (simp only: handleDrawMoves.simps step Let_def prod.case)
  then show ?case by (simp add: te ih)
qed

lemma handleDrawMoves_append:
  "handleDrawMoves s (es @ [(t, e)]) cd =
     (let (s', cd1) = handleDrawMoves s es cd in handleDrawMove s' t e cd1)"
  by (induction s es cd rule: handleDrawMoves.induct) (simp_all add: Let_def split: prod.splits)

text \<open>
  What the replay does, read off the handlers of \<open>DrawingState\<close>. The replay is the live
  delivery of one synthetic event for each buffered point.
\<close>

lemma issueDeferredMoves_synthetic:
  "issueDeferredMoves d pts cd = liveMoves d (map SyntheticEvent pts) cd"
  by (induction pts arbitrary: d cd) simp_all

lemma issueDeferredPoints_synthetic:
  "issueDeferredPoints pts cd = liveDelivery (map SyntheticEvent pts) cd"
  by (cases pts)
    (simp_all add: issueDeferredPoints_def liveDelivery_def issueDeferredMoves_synthetic split_beta)

lemma SyntheticEvent_point: "clientPointFromEvent (SyntheticEvent p) = p"
  by (simp add: clientPointFromEvent_def SyntheticEvent_def)

lemma docPoint_cong:
  "props cd' = props cd \<Longrightarrow> coordSystem cd' = coordSystem cd \<Longrightarrow> docPoint cd' p = docPoint cd p"
  by (simp add: docPoint_def clampPointToDocument_def)

lemma followsPointer_update:
  "followsPointer lz \<Longrightarrow> followsPointer (LazyBrush_update lz p both)"
  by (simp add: followsPointer_def LazyBrush_update_def)

text \<open>
  With a stroke tool and a brush that follows the pointer, a move records the document
  point of the event: once when a stroke is under way, twice when it starts one.
\<close>

lemma stroke_move_follow_aux:
  assumes "tool (props cd) = t" and "t = ''Pencil'' \<or> t = ''Eraser''"
    and "followsPointer (lazy cd)"
  shows "fst (DrawingState_handleDrawMove d e cd False) = True \<and>
     points (snd (DrawingState_handleDrawMove d e cd False)) =
       points cd @ (if d then [docPoint cd (clientPointFromEvent e)]
                    else [docPoint cd (clientPointFromEvent e), docPoint cd (clientPointFromEvent e)]) \<and>
     props (snd (DrawingState_handleDrawMove d e cd False)) = props cd \<and>
     coordSystem (snd (DrawingState_handleDrawMove d e cd False)) = coordSystem cd \<and>
     lazy (snd (DrawingState_handleDrawMove d e cd False)) =
       LazyBrush_update (lazy cd) (viewPointFromEvent (coordSystem cd) e) False"
proof -
  from assms(3) have br: "lazyBrushPoint (lazy cd) (lazyUpdate (lazy cd) l p both) = p" for l p both
    by (simp add: followsPointer_def)
  from assms(3) have en: "lazyIsEnabled (lazy cd) l" for l
    by (simp add: followsPointer_def)
  have eta: "\<lparr>px = px p, py = py p\<rparr> = p" for p :: point
    by simp
  from assms(2) show ?thesis
  proof
    assume "t = ''Pencil''"
    with assms(1) have "tool (props cd) = ''Pencil''" by simp
    then show ?thesis
      by (simp add: DrawingState_handleDrawMove_def Let_def pushBrushPoint_def docPoint_def
          clampPointToDocument_def viewPointFromEvent_def br en eta
          LazyBrush_update_def LazyBrush_brush_def LazyBrush_isEnabled_def)
  next
    assume "t = ''Eraser''"
    with assms(1) have "tool (props cd) = ''Eraser''" by simp
    then show ?thesis
      by (simp add: DrawingState_handleDrawMove_def Let_def pushBrushPoint_def docPoint_def
          clampPointToDocument_def viewPointFromEvent_def br en eta
          LazyBrush_update_def LazyBrush_brush_def LazyBrush_isEnabled_def)
  qed
qed

lemma stroke_move_follow:
  assumes "tool (props cd) = ''Pencil'' \<or> tool (props cd) = ''Eraser''"
    and "followsPointer (lazy cd)"
  shows "fst (DrawingState_handleDrawMove d e cd False) = True"
    and "points (snd (DrawingState_handleDrawMove d e cd False)) =
       points cd @ (if d then [docPoint cd (clientPointFromEvent e)]
                    else [docPoint cd (clientPointFromEvent e), docPoint cd (clientPointFromEvent e)])"
    and "props (snd (DrawingState_handleDrawMove d e cd False)) = props cd"
    and "coordSystem (snd (DrawingState_handleDrawMove d e cd False)) = coordSystem cd"
    and "followsPointer (lazy (snd (DrawingState_handleDrawMove d e cd False)))"
proof -
  note r = stroke_move_follow_aux [OF refl assms, of d e]
  from r show "fst (DrawingState_handleDrawMove d e cd False) = True" by blast
  from r show "points (snd (DrawingState_handleDrawMove d e cd False)) =
       points cd @ (if d then [docPoint cd (clientPointFromEvent e)]
                    else [docPoint cd (clientPointFromEvent e), docPoint cd (clientPointFromEvent e)])"
    by blast
  from r show "props (snd (DrawingState_handleDrawMove d e cd False)) = props cd" by blast
  from r show "coordSystem (snd (DrawingState_handleDrawMove d e cd False)) = coordSystem cd" by blast
  from r have "lazy (snd (DrawingState_handleDrawMove d e cd False)) =
       LazyBrush_update (lazy cd) (viewPointFromEvent (coordSystem cd) e) False" by blast
  with followsPointer_update [OF assms(2)]
  show "followsPointer (lazy (snd (DrawingState_handleDrawMove d e cd False)))" by simp
qed

lemma issueDeferredMoves_points:
  assumes "tool (props cd) = ''Pencil'' \<or> tool (props cd) = ''Eraser''"
    and "followsPointer (lazy cd)"
  shows "fst (issueDeferredMoves True pts cd) = True \<and>
         points (snd (issueDeferredMoves True pts cd)) = points cd @ map (docPoint cd) pts"
  using assms
proof (induction pts arbitrary: cd)
  case Nil
  then show ?case by simp
next
  case (Cons p pts)
  let ?r = "DrawingState_handleDrawMove True (SyntheticEvent p) cd False"
  note m = stroke_move_follow [OF Cons.prems, of True "SyntheticEvent p"]
  from m(3) Cons.prems(1)
  have t1: "tool (props (snd ?r)) = ''Pencil'' \<or> tool (props (snd ?r)) = ''Eraser''" by simp
  note ih = Cons.IH [OF t1 m(5)]
  have dp: "docPoint (snd ?r) q = docPoint cd q" for q
    by (rule docPoint_cong [OF m(3) m(4)])
  have st: "issueDeferredMoves True (p # pts) cd = issueDeferredMoves True pts (snd ?r)"
    using m(1) by (simp add: split_beta)
  from ih m(2) show ?case
    unfolding st by (simp add: dp SyntheticEvent_point)
qed

lemma issueDeferredPoints_points:
  assumes "tool (props cd) = ''Pencil'' \<or> tool (props cd) = ''Eraser''"
    and "followsPointer (lazy cd)" and "pts \<noteq> []"
  shows "fst (issueDeferredPoints pts cd) = True \<and>
         points (snd (issueDeferredPoints pts cd)) = points cd @ docPoint cd (hd pts) # map (docPoint cd) pts"
proof -
  from assms(3) obtain p ps where pts: "pts = p # ps" by (cases pts) auto
  let ?cd1 = "cd\<lparr>lazy := LazyBrush_update (lazy cd) (viewPointFromEvent (coordSystem cd) (SyntheticEvent p)) True\<rparr>"
  let ?r = "DrawingState_handleDrawMove False (SyntheticEvent p) ?cd1 False"
  have t1: "tool (props ?cd1) = ''Pencil'' \<or> tool (props ?cd1) = ''Eraser''"
    using assms(1) by simp
  have f1: "followsPointer (lazy ?cd1)"
    using followsPointer_update [OF assms(2)] by simp
  note m = stroke_move_follow [OF t1 f1, of False "SyntheticEvent p"]
  have st: "DrawingState_handleDrawStart False (SyntheticEvent p) cd False = ?r"
    by (simp add: DrawingState_handleDrawStart_def Let_def) (simp add: SyntheticEvent_def)
  have d1: "docPoint ?cd1 q = docPoint cd q" for q
    by (rule docPoint_cong) simp_all
  from m(3) assms(1)
  have t2: "tool (props (snd ?r)) = ''Pencil'' \<or> tool (props (snd ?r)) = ''Eraser''" by simp
  note mv = issueDeferredMoves_points [OF t2 m(5), of ps]
  have d2: "docPoint (snd ?r) q = docPoint cd q" for q
    using docPoint_cong [OF m(3) m(4), of q] by (simp add: d1)
  have run: "issueDeferredPoints pts cd = issueDeferredMoves True ps (snd ?r)"
    using m(1) by (simp add: pts issueDeferredPoints_def st split_beta)
  from mv m(2) show ?thesis
    unfolding run by (simp add: pts d1 d2 SyntheticEvent_point)
qed

text \<open>
  Claim C4. The slop is 10 and the timeout 250 ms. In \<open>WaitForPinchState\<close>, a run of
  move events with at most one touch each, that arrive less than 250 ms after the state
  was entered and whose Manhattan distance from the first recorded point stays below
  10, leaves the machine in \<open>WaitForPinchState\<close>, with the points buffered in order and
  the component untouched. A further such event at which the distance has reached 10 or
  the elapsed time 250 ms takes the machine to \<open>DrawingState\<close> and replays all the
  buffered points, that event's included, in order: the result is what
  \<open>issueDeferredPoints\<close> yields for the buffer, which is what a new \<open>DrawingState\<close>
  yields when it is given one synthetic event for each buffered point, the first as a
  draw-start and the others as draw-moves; and with the Pencil or the Eraser and a brush
  that follows the pointer, the machine is in \<open>DrawingState\<close> with a stroke under way,
  and the stroke has gained the document point of the first buffered point (which starts
  the stroke) followed by the document points of all the buffered points, in the order
  in which they were buffered.
\<close>

theorem waitForPinch_slop_and_timeout:
  assumes "list_all (calm w (firstRecorded w (es @ [(t, e)]))) es"
    and "length (touches e) < 2"
  shows "TOUCH_SLOP = 10 \<and> PINCH_TIMEOUT_MS = 250 \<and>
     handleDrawMoves (WaitForPinchState w) es cd =
       (WaitForPinchState
          (w\<lparr>deferredPoints := deferredPoints w @ map (\<lambda>te. clientPointFromEvent (snd te)) es,
             startClientPoint := (if es = [] then startClientPoint w
                                  else Some (firstRecorded w (es @ [(t, e)])))\<rparr>), cd) \<and>
     (t - startTimestamp w \<ge> PINCH_TIMEOUT_MS \<or>
      manhattan (clientPointFromEvent e) (firstRecorded w (es @ [(t, e)])) \<ge> TOUCH_SLOP \<longrightarrow>
        handleDrawMoves (WaitForPinchState w) (es @ [(t, e)]) cd =
          asDrawingState (issueDeferredPoints
            (deferredPoints w @ map (\<lambda>te. clientPointFromEvent (snd te)) (es @ [(t, e)])) cd) \<and>
        handleDrawMoves (WaitForPinchState w) (es @ [(t, e)]) cd =
          asDrawingState (liveDelivery (map SyntheticEvent
            (deferredPoints w @ map (\<lambda>te. clientPointFromEvent (snd te)) (es @ [(t, e)]))) cd) \<and>
        ((tool (props cd) = ''Pencil'' \<or> tool (props cd) = ''Eraser'') \<and> followsPointer (lazy cd) \<longrightarrow>
           fst (handleDrawMoves (WaitForPinchState w) (es @ [(t, e)]) cd) = DrawingState True \<and>
           points (snd (handleDrawMoves (WaitForPinchState w) (es @ [(t, e)]) cd)) =
             points cd @
               docPoint cd (hd (deferredPoints w @ map (\<lambda>te. clientPointFromEvent (snd te)) (es @ [(t, e)]))) #
               map (docPoint cd) (deferredPoints w @ map (\<lambda>te. clientPointFromEvent (snd te)) (es @ [(t, e)]))))"
proof -
  let ?a = "firstRecorded w (es @ [(t, e)])"
  let ?w = "w\<lparr>deferredPoints := deferredPoints w @ map (\<lambda>te. clientPointFromEvent (snd te)) es,
             startClientPoint := (if es = [] then startClientPoint w else Some ?a)\<rparr>"
  let ?buf = "deferredPoints w @ map (\<lambda>te. clientPointFromEvent (snd te)) (es @ [(t, e)])"
  have an: "startClientPoint w = Some ?a \<or>
         (startClientPoint w = None \<and> (es \<noteq> [] \<longrightarrow> ?a = clientPointFromEvent (snd (hd es))))"
    by (cases "startClientPoint w") (auto simp: firstRecorded_def)
  have run: "handleDrawMoves (WaitForPinchState w) es cd = (WaitForPinchState ?w, cd)"
    by (rule wait_calm_run [OF assms(1) an])
  have an': "startClientPoint ?w = Some ?a \<or> (startClientPoint ?w = None \<and> ?a = clientPointFromEvent e)"
    by (cases "startClientPoint w") (auto simp: firstRecorded_def)
  have up: "handleDrawMoves (WaitForPinchState w) (es @ [(t, e)]) cd =
          asDrawingState (issueDeferredPoints ?buf cd)"
    if "t - startTimestamp w \<ge> PINCH_TIMEOUT_MS \<or> manhattan (clientPointFromEvent e) ?a \<ge> TOUCH_SLOP"
  proof -
    from that have "t - startTimestamp ?w \<ge> PINCH_TIMEOUT_MS \<or> manhattan (clientPointFromEvent e) ?a \<ge> TOUCH_SLOP"
      by simp
    from wait_gives_up [OF assms(2) an' this, of cd]
    show ?thesis by (simp only: handleDrawMoves_append run Let_def prod.case) simp
  qed
  have ne: "?buf \<noteq> []" by simp
  have stroke: "fst (asDrawingState (issueDeferredPoints ?buf cd)) = DrawingState True \<and>
      points (snd (asDrawingState (issueDeferredPoints ?buf cd))) =
        points cd @ docPoint cd (hd ?buf) # map (docPoint cd) ?buf"
    if "tool (props cd) = ''Pencil'' \<or> tool (props cd) = ''Eraser''" "followsPointer (lazy cd)"
    using issueDeferredPoints_points [OF that ne] by (simp add: asDrawingState_def)
  show ?thesis
  proof (intro conjI impI)
    show "TOUCH_SLOP = 10" by (simp add: TOUCH_SLOP_def)
    show "PINCH_TIMEOUT_MS = 250" by (simp add: PINCH_TIMEOUT_MS_def)
    show "handleDrawMoves (WaitForPinchState w) es cd = (WaitForPinchState ?w, cd)" by (rule run)
  next
    assume g: "t - startTimestamp w \<ge> PINCH_TIMEOUT_MS \<or> manhattan (clientPointFromEvent e) ?a \<ge> TOUCH_SLOP"
    show "handleDrawMoves (WaitForPinchState w) (es @ [(t, e)]) cd = asDrawingState (issueDeferredPoints ?buf cd)"
      by (rule up [OF g])
    show "handleDrawMoves (WaitForPinchState w) (es @ [(t, e)]) cd =
          asDrawingState (liveDelivery (map SyntheticEvent ?buf) cd)"
      unfolding up [OF g] issueDeferredPoints_synthetic ..
  next
    assume g: "t - startTimestamp w \<ge> PINCH_TIMEOUT_MS \<or> manhattan (clientPointFromEvent e) ?a \<ge> TOUCH_SLOP"
      and s: "(tool (props cd) = ''Pencil'' \<or> tool (props cd) = ''Eraser'') \<and> followsPointer (lazy cd)"
    from s have s1: "tool (props cd) = ''Pencil'' \<or> tool (props cd) = ''Eraser''"
      and s2: "followsPointer (lazy cd)" by blast+
    from stroke [OF s1 s2]
    show "fst (handleDrawMoves (WaitForPinchState w) (es @ [(t, e)]) cd) = DrawingState True"
      unfolding up [OF g] by blast
  next
    assume g: "t - startTimestamp w \<ge> PINCH_TIMEOUT_MS \<or> manhattan (clientPointFromEvent e) ?a \<ge> TOUCH_SLOP"
      and s: "(tool (props cd) = ''Pencil'' \<or> tool (props cd) = ''Eraser'') \<and> followsPointer (lazy cd)"
    from s have s1: "tool (props cd) = ''Pencil'' \<or> tool (props cd) = ''Eraser''"
      and s2: "followsPointer (lazy cd)" by blast+
    from stroke [OF s1 s2]
    show "points (snd (handleDrawMoves (WaitForPinchState w) (es @ [(t, e)]) cd)) =
        points cd @ docPoint cd (hd ?buf) # map (docPoint cd) ?buf"
      unfolding up [OF g] by blast
  qed
qed

theorem waitForPinch_slop_and_timeout_witness:
  "list_all (calm (new_WaitForPinchState 1000)
       (firstRecorded (new_WaitForPinchState 1000)
          ([(1010, touchEvent [touchAt 100 100]), (1050, touchEvent [touchAt 103 102])] @
           [(1100, touchEvent [touchAt 108 105])])))
     [(1010, touchEvent [touchAt 100 100]), (1050, touchEvent [touchAt 103 102])] \<and>
   length (touches (touchEvent [touchAt 108 105])) < 2 \<and>
   manhattan (clientPointFromEvent (touchEvent [touchAt 108 105]))
     (firstRecorded (new_WaitForPinchState 1000)
          ([(1010, touchEvent [touchAt 100 100]), (1050, touchEvent [touchAt 103 102])] @
           [(1100, touchEvent [touchAt 108 105])])) \<ge> TOUCH_SLOP \<and>
   tool (props (exampleCanvas ''Pencil'' True 1)) = ''Pencil'' \<and>
   followsPointer (lazy (exampleCanvas ''Pencil'' True 1)) \<and>
   handleDrawMoves (WaitForPinchState (new_WaitForPinchState 1000))
     [(1010, touchEvent [touchAt 100 100]), (1050, touchEvent [touchAt 103 102])]
     (exampleCanvas ''Pencil'' True 1) =
     (WaitForPinchState
        \<lparr>startClientPoint = Some (touchAt 100 100), startTimestamp = 1000,
         deferredPoints = [touchAt 100 100, touchAt 103 102]\<rparr>,
      exampleCanvas ''Pencil'' True 1) \<and>
   handleDrawMoves (WaitForPinchState (new_WaitForPinchState 1000))
     ([(1010, touchEvent [touchAt 100 100]), (1050, touchEvent [touchAt 103 102])] @
      [(1100, touchEvent [touchAt 108 105])])
     (exampleCanvas ''Pencil'' True 1) =
     asDrawingState (issueDeferredPoints [touchAt 100 100, touchAt 103 102, touchAt 108 105]
       (exampleCanvas ''Pencil'' True 1)) \<and>
   fst (handleDrawMoves (WaitForPinchState (new_WaitForPinchState 1000))
     ([(1010, touchEvent [touchAt 100 100]), (1050, touchEvent [touchAt 103 102])] @
      [(1100, touchEvent [touchAt 108 105])])
     (exampleCanvas ''Pencil'' True 1)) = DrawingState True \<and>
   points (snd (handleDrawMoves (WaitForPinchState (new_WaitForPinchState 1000))
     ([(1010, touchEvent [touchAt 100 100]), (1050, touchEvent [touchAt 103 102])] @
      [(1100, touchEvent [touchAt 108 105])])
     (exampleCanvas ''Pencil'' True 1))) =
     [\<lparr>px = 100, py = 100\<rparr>, \<lparr>px = 100, py = 100\<rparr>, \<lparr>px = 103, py = 102\<rparr>, \<lparr>px = 108, py = 105\<rparr>]"
proof -
  let ?w = "new_WaitForPinchState 1000"
  let ?es = "[(1010 :: int, touchEvent [touchAt 100 100]), (1050, touchEvent [touchAt 103 102])]"
  let ?e = "touchEvent [touchAt 108 105]"
  have cp: "clientPointFromEvent (touchEvent (p # ps)) = p" for p ps
    by (simp add: clientPointFromEvent_def touchEvent_def)
  have fr: "firstRecorded ?w (?es @ [(1100, ?e)]) = touchAt 100 100"
    by (simp add: firstRecorded_def new_WaitForPinchState_def cp)
  have tt: "touches (touchEvent ts) = ts" for ts by (simp add: touchEvent_def)
  have h1: "list_all (calm ?w (firstRecorded ?w (?es @ [(1100, ?e)]))) ?es"
    unfolding fr
    by (simp add: calm_def cp tt manhattan_def touchAt_def new_WaitForPinchState_def
        TOUCH_SLOP_def PINCH_TIMEOUT_MS_def)
  have h2: "length (touches ?e) < 2" by (simp add: touchEvent_def)
  have far: "manhattan (clientPointFromEvent ?e) (firstRecorded ?w (?es @ [(1100, ?e)])) \<ge> TOUCH_SLOP"
    unfolding fr by (simp add: cp manhattan_def touchAt_def TOUCH_SLOP_def)
  let ?cd = "exampleCanvas ''Pencil'' True 1"
  have tl: "tool (props ?cd) = ''Pencil''" by (simp add: exampleCanvas_def)
  have fp: "followsPointer (lazy ?cd)"
    by (simp add: exampleCanvas_def followsPointer_def directLazyBrush_def directUpdate_def
        directBrushPoint_def directIsEnabled_def)
  let ?pts = "\<lambda>es :: (int \<times> event) list. map (\<lambda>te. clientPointFromEvent (snd te)) es"
  note r = waitForPinch_slop_and_timeout [OF h1 h2, of ?cd]
  from r have r1: "handleDrawMoves (WaitForPinchState ?w) ?es ?cd =
       (WaitForPinchState
          (?w\<lparr>deferredPoints := deferredPoints ?w @ ?pts ?es,
             startClientPoint := (if ?es = [] then startClientPoint ?w
                                  else Some (firstRecorded ?w (?es @ [(1100, ?e)])))\<rparr>), ?cd)"
    by blast
  from r far have r2: "handleDrawMoves (WaitForPinchState ?w) (?es @ [(1100, ?e)]) ?cd =
          asDrawingState (issueDeferredPoints (deferredPoints ?w @ ?pts (?es @ [(1100, ?e)])) ?cd)"
    by blast
  from r far tl fp have r3: "fst (handleDrawMoves (WaitForPinchState ?w) (?es @ [(1100, ?e)]) ?cd) = DrawingState True"
    by blast
  from r far tl fp have r4: "points (snd (handleDrawMoves (WaitForPinchState ?w) (?es @ [(1100, ?e)]) ?cd)) =
      points ?cd @ docPoint ?cd (hd (deferredPoints ?w @ ?pts (?es @ [(1100, ?e)]))) #
        map (docPoint ?cd) (deferredPoints ?w @ ?pts (?es @ [(1100, ?e)]))"
    by blast
  have eq1: "?w\<lparr>deferredPoints := deferredPoints ?w @ ?pts ?es,
             startClientPoint := (if ?es = [] then startClientPoint ?w
                                  else Some (firstRecorded ?w (?es @ [(1100, ?e)])))\<rparr> =
      \<lparr>startClientPoint = Some (touchAt 100 100), startTimestamp = 1000,
         deferredPoints = [touchAt 100 100, touchAt 103 102]\<rparr>"
    unfolding fr by (simp add: cp new_WaitForPinchState_def)
  have eq2: "deferredPoints ?w @ ?pts (?es @ [(1100, ?e)]) =
      [touchAt 100 100, touchAt 103 102, touchAt 108 105]"
    by (simp add: cp new_WaitForPinchState_def)
  have eq3: "points ?cd @ docPoint ?cd (hd [touchAt 100 100, touchAt 103 102, touchAt 108 105]) #
        map (docPoint ?cd) [touchAt 100 100, touchAt 103 102, touchAt 108 105] =
      [\<lparr>px = 100, py = 100\<rparr>, \<lparr>px = 100, py = 100\<rparr>, \<lparr>px = 103, py = 102\<rparr>, \<lparr>px = 108, py = 105\<rparr>]"
    by (simp add: exampleCanvas_def docPoint_def clampPointToDocument_def clientPointToViewPoint_def
        touchAt_def)
  from h1 h2 far tl fp r1 [unfolded eq1] r2 [unfolded eq2] r3 r4 [unfolded eq2 eq3]
  show ?thesis by (intro conjI)
qed

subsection \<open>Replaying the buffered points\<close>

lemma clientPointFromEvent_SyntheticEvent:
  "clientPointFromEvent (SyntheticEvent (clientPointFromEvent e)) = clientPointFromEvent e"
  by (simp add: clientPointFromEvent_def SyntheticEvent_def split: list.splits)

lemma viewPointFromEvent_SyntheticEvent:
  "viewPointFromEvent cs (SyntheticEvent (clientPointFromEvent e)) = viewPointFromEvent cs e"
  by (simp add: viewPointFromEvent_def clientPointFromEvent_SyntheticEvent)

lemma handleDrawMove_SyntheticEvent:
  "DrawingState_handleDrawMove d (SyntheticEvent (clientPointFromEvent e)) cd sse =
   DrawingState_handleDrawMove d e cd sse"
  by (simp add: DrawingState_handleDrawMove_def viewPointFromEvent_SyntheticEvent)

lemma handleDrawStart_SyntheticEvent:
  "touches e \<noteq> [] \<Longrightarrow>
   DrawingState_handleDrawStart d (SyntheticEvent (clientPointFromEvent e)) cd sse =
   DrawingState_handleDrawStart d e cd sse"
  by (simp add: DrawingState_handleDrawStart_def handleDrawMove_SyntheticEvent
      viewPointFromEvent_SyntheticEvent) (simp add: SyntheticEvent_def)

lemma issueDeferredMoves_live:
  "issueDeferredMoves d (map clientPointFromEvent es) cd = liveMoves d es cd"
  by (induction es arbitrary: d cd) (simp_all add: handleDrawMove_SyntheticEvent)

text \<open>
  \<open>WaitForPinchState\<close> is entered from \<open>DefaultState.handleDrawStart\<close> only, and
  only with an event that has a touch; its buffer then holds the point of that event.
\<close>

lemma wait_buffers_only_touch_starts:
  assumes "handleDrawStart DefaultState now e cd sse = (WaitForPinchState w, cd')"
  shows "touches e \<noteq> [] \<and> deferredPoints w = [clientPointFromEvent e]"
  using assms
  by (auto simp: DefaultState_handleDrawStart_def WaitForPinchState_handleDrawStart_def
      PanState_handleDrawStart_def asDrawingState_def ScaleOrPanState_handleDrawStart_def
      WaitForPinchState_handleDrawMove_def new_WaitForPinchState_def Let_def
      split: if_splits list.splits)

text \<open>
  Claim C5. For every finite sequence of events whose first one has a touch (as the
  first event that \<open>WaitForPinchState\<close> buffers has), replaying their client points
  with \<open>issueDeferredPoints\<close> (the first through a synthetic draw-start, the others
  through synthetic draw-moves, in order) leaves the same \<open>isDrawing\<close> flag and the
  same component, hence the same points of the stroke, as delivering the events live to
  a new \<open>DrawingState\<close>.
\<close>

theorem replay_reproduces_live_stroke:
  assumes "es \<noteq> [] \<longrightarrow> touches (hd es) \<noteq> []"
  shows "issueDeferredPoints (map clientPointFromEvent es) cd = liveDelivery es cd \<and>
         points (snd (issueDeferredPoints (map clientPointFromEvent es) cd)) = points (snd (liveDelivery es cd))"
proof (cases es)
  case Nil
  then show ?thesis by (simp add: issueDeferredPoints_def liveDelivery_def)
next
  case (Cons e es')
  with assms have "touches e \<noteq> []" by simp
  then have "issueDeferredPoints (map clientPointFromEvent es) cd = liveDelivery es cd"
    by (simp add: Cons issueDeferredPoints_def liveDelivery_def handleDrawStart_SyntheticEvent
        issueDeferredMoves_live split: prod.splits)
  then show ?thesis by simp
qed

theorem replay_reproduces_live_stroke_witness:
  "touches (hd [touchEvent [touchAt 100 100], touchEvent [touchAt 103 102], touchEvent [touchAt 108 105]]) \<noteq> [] \<and>
   issueDeferredPoints [touchAt 100 100, touchAt 103 102, touchAt 108 105] (exampleCanvas ''Pencil'' True 1) =
     liveDelivery [touchEvent [touchAt 100 100], touchEvent [touchAt 103 102], touchEvent [touchAt 108 105]]
       (exampleCanvas ''Pencil'' True 1) \<and>
   points (snd (liveDelivery [touchEvent [touchAt 100 100], touchEvent [touchAt 103 102], touchEvent [touchAt 108 105]]
       (exampleCanvas ''Pencil'' True 1))) =
     [\<lparr>px = 100, py = 100\<rparr>, \<lparr>px = 100, py = 100\<rparr>, \<lparr>px = 103, py = 102\<rparr>, \<lparr>px = 108, py = 105\<rparr>]"
proof -
  let ?es = "[touchEvent [touchAt 100 100], touchEvent [touchAt 103 102], touchEvent [touchAt 108 105]]"
  have cp: "clientPointFromEvent (touchEvent (p # ps)) = p" for p ps
    by (simp add: clientPointFromEvent_def touchEvent_def)
  have tt: "touches (touchEvent ts) = ts" for ts by (simp add: touchEvent_def)
  have h: "?es \<noteq> [] \<longrightarrow> touches (hd ?es) \<noteq> []" by (simp add: tt)
  have live: "points (snd (liveDelivery ?es (exampleCanvas ''Pencil'' True 1))) =
     [\<lparr>px = 100, py = 100\<rparr>, \<lparr>px = 100, py = 100\<rparr>, \<lparr>px = 103, py = 102\<rparr>, \<lparr>px = 108, py = 105\<rparr>]"
    by (simp add: liveDelivery_def DrawingState_handleDrawStart_def DrawingState_handleDrawMove_def
        exampleCanvas_def viewPointFromEvent_def clientPointToViewPoint_def cp touchAt_def
        LazyBrush_update_def LazyBrush_brush_def LazyBrush_isEnabled_def directLazyBrush_def
        directUpdate_def directBrushPoint_def directIsEnabled_def pushBrushPoint_def
        clampPointToDocument_def Let_def tt)
  from replay_reproduces_live_stroke [OF h, of "exampleCanvas ''Pencil'' True 1"] live h
  show ?thesis by (simp add: cp)
qed

subsection \<open>Scaling with two touches\<close>













subsection \<open>A click\<close>

lemma click_start:
  assumes "touches e = []" "\<not> disabled (props cd)" "\<not> enablePanAndZoom (props cd)"
  shows "handleDrawStart DefaultState now e cd sse =
         asDrawingState (DrawingState_handleDrawMove False e cd sse)"
  using assms
  by (simp add: DefaultState_handleDrawStart_def WaitForPinchState_handleDrawStart_def
      DrawingState_handleDrawStart_def)

lemma move_stroke_tool_aux:
  assumes "tool (props cd) = t" and "t = ''Pencil'' \<or> t = ''Eraser''"
  shows "fst (DrawingState_handleDrawMove d e cd sse) = True \<and>
     length (points cd) + 1 \<le> length (points (snd (DrawingState_handleDrawMove d e cd sse))) \<and>
     (\<not> d \<longrightarrow> length (points (snd (DrawingState_handleDrawMove d e cd sse))) = length (points cd) + 2) \<and>
     lines (snd (DrawingState_handleDrawMove d e cd sse)) = lines cd \<and>
     props (snd (DrawingState_handleDrawMove d e cd sse)) = props cd"
  using assms(2)
proof
  assume "t = ''Pencil''"
  with assms(1) have "tool (props cd) = ''Pencil''" by simp
  then show ?thesis
    by (simp add: DrawingState_handleDrawMove_def Let_def pushBrushPoint_def)
next
  assume "t = ''Eraser''"
  with assms(1) have "tool (props cd) = ''Eraser''" by simp
  then show ?thesis
    by (simp add: DrawingState_handleDrawMove_def Let_def pushBrushPoint_def)
qed

lemma move_stroke_tool:
  assumes "tool (props cd) = ''Pencil'' \<or> tool (props cd) = ''Eraser''"
  shows "fst (DrawingState_handleDrawMove d e cd sse) = True"
    and "length (points cd) + 1 \<le> length (points (snd (DrawingState_handleDrawMove d e cd sse)))"
    and "\<not> d \<Longrightarrow> length (points (snd (DrawingState_handleDrawMove d e cd sse))) = length (points cd) + 2"
    and "lines (snd (DrawingState_handleDrawMove d e cd sse)) = lines cd"
    and "props (snd (DrawingState_handleDrawMove d e cd sse)) = props cd"
  using move_stroke_tool_aux [OF refl assms, of d e sse] by blast+

lemma move_other_tool_aux:
  assumes "tool (props cd) \<noteq> ''Pencil''" "tool (props cd) \<noteq> ''Eraser''"
  shows "fst (DrawingState_handleDrawMove d e cd sse) = d \<and>
     points (snd (DrawingState_handleDrawMove d e cd sse)) = points cd \<and>
     lines (snd (DrawingState_handleDrawMove d e cd sse)) =
           (if tool (props cd) = ''Rectangle'' \<or> tool (props cd) = ''Circle'' then [] else lines cd) \<and>
     props (snd (DrawingState_handleDrawMove d e cd sse)) = props cd"
proof -
  consider (ff) "tool (props cd) = ''FloodFill''" | (re) "tool (props cd) = ''Rectangle''"
    | (ci) "tool (props cd) = ''Circle''"
    | (ot) "tool (props cd) \<noteq> ''FloodFill''" "tool (props cd) \<noteq> ''Rectangle''" "tool (props cd) \<noteq> ''Circle''"
    by blast
  then show ?thesis
  proof cases
    case ff
    then show ?thesis
      by (simp add: DrawingState_handleDrawMove_def Let_def)
  next
    case re
    then show ?thesis
      by (simp add: DrawingState_handleDrawMove_def Let_def drawRect_def clear_def)
  next
    case ci
    then show ?thesis
      by (simp add: DrawingState_handleDrawMove_def Let_def drawCircle_def clear_def)
  next
    case ot
    with assms show ?thesis
      by (simp add: DrawingState_handleDrawMove_def Let_def)
  qed
qed

lemma move_other_tool:
  assumes "tool (props cd) \<noteq> ''Pencil''" "tool (props cd) \<noteq> ''Eraser''"
  shows "fst (DrawingState_handleDrawMove d e cd sse) = d"
    and "points (snd (DrawingState_handleDrawMove d e cd sse)) = points cd"
    and "lines (snd (DrawingState_handleDrawMove d e cd sse)) =
           (if tool (props cd) = ''Rectangle'' \<or> tool (props cd) = ''Circle'' then [] else lines cd)"
    and "props (snd (DrawingState_handleDrawMove d e cd sse)) = props cd"
  using move_other_tool_aux [OF assms, of d e sse] by blast+

text \<open>
  Claim C9, as stated, fails: with the Pencil tool, a mouse draw-start followed by a
  draw-end at the same place, pan and zoom disabled, goes to \<open>DrawingState\<close> directly,
  but the stroke is not discarded: the draw-start has recorded two points and the
  draw-end a third, and \<open>saveLine\<close> commits a line of three points.
\<close>

theorem click_is_not_discarded_counterexample:
  "fst (handleDrawStart DefaultState 0 (mouseEvent 5 5) (exampleCanvas ''Pencil'' False 1) False) = DrawingState True \<and>
   lines (snd (handleDrawEnd
      (fst (handleDrawStart DefaultState 0 (mouseEvent 5 5) (exampleCanvas ''Pencil'' False 1) False))
      (mouseEvent 5 5)
      (snd (handleDrawStart DefaultState 0 (mouseEvent 5 5) (exampleCanvas ''Pencil'' False 1) False)))) =
     [\<lparr>line_points = [\<lparr>px = 5, py = 5\<rparr>, \<lparr>px = 5, py = 5\<rparr>, \<lparr>px = 5, py = 5\<rparr>],
       line_brushColor = ''#db2727'', line_brushRadius = 10\<rparr>]"
  by (simp add: DefaultState_handleDrawStart_def WaitForPinchState_handleDrawStart_def
      DrawingState_handleDrawStart_def DrawingState_handleDrawMove_def DrawingState_handleDrawEnd_def
      asDrawingState_def saveLine_def
      exampleCanvas_def mouseEvent_def viewPointFromEvent_def clientPointToViewPoint_def
      clientPointFromEvent_def
      LazyBrush_update_def LazyBrush_brush_def LazyBrush_isEnabled_def directLazyBrush_def
      directUpdate_def directBrushPoint_def directIsEnabled_def pushBrushPoint_def
      clampPointToDocument_def Let_def)

text \<open>
  Claim C9, amended. For a draw-start by an event without touches, followed by a
  draw-end by the same event, with the component enabled, pan and zoom disabled and no
  point pending: the machine goes from \<open>DefaultState\<close> to \<open>DrawingState\<close> directly and
  the draw-end returns it to \<open>DefaultState\<close>. With the Pencil or the Eraser tool the
  draw-start records two points and the draw-end commits a line of at least three
  points. With any other tool no point is recorded and no line is committed (the
  Rectangle and Circle tools drop the lines there were).
\<close>

theorem click_commits_a_dot:
  assumes "touches e = []" and "\<not> disabled (props cd)" and "\<not> enablePanAndZoom (props cd)"
    and "points cd = []"
  shows "(\<exists>d. fst (handleDrawStart DefaultState now e cd sse) = DrawingState d) \<and>
     fst (handleDrawEnd (fst (handleDrawStart DefaultState now e cd sse)) e
            (snd (handleDrawStart DefaultState now e cd sse))) = DefaultState \<and>
     (tool (props cd) = ''Pencil'' \<or> tool (props cd) = ''Eraser'' \<longrightarrow>
        length (points (snd (handleDrawStart DefaultState now e cd sse))) = 2 \<and>
        (\<exists>l. lines (snd (handleDrawEnd (fst (handleDrawStart DefaultState now e cd sse)) e
                 (snd (handleDrawStart DefaultState now e cd sse)))) = lines cd @ [l] \<and>
             3 \<le> length (line_points l))) \<and>
     (tool (props cd) \<noteq> ''Pencil'' \<and> tool (props cd) \<noteq> ''Eraser'' \<longrightarrow>
        points (snd (handleDrawStart DefaultState now e cd sse)) = [] \<and>
        lines (snd (handleDrawEnd (fst (handleDrawStart DefaultState now e cd sse)) e
                 (snd (handleDrawStart DefaultState now e cd sse)))) =
          (if tool (props cd) = ''Rectangle'' \<or> tool (props cd) = ''Circle'' then [] else lines cd))"
proof -
  let ?r1 = "DrawingState_handleDrawMove False e cd sse"
  let ?r2 = "DrawingState_handleDrawMove (fst ?r1) e (snd ?r1) False"
  have s: "handleDrawStart DefaultState now e cd sse = (DrawingState (fst ?r1), snd ?r1)"
    using click_start [OF assms(1-3)] by (simp add: asDrawingState_def)
  have e: "handleDrawEnd (DrawingState (fst ?r1)) e (snd ?r1) = (DefaultState, saveLine (snd ?r2))"
    by (simp add: DrawingState_handleDrawEnd_def split: prod.splits)
  have stroke: "length (points (snd ?r1)) = 2 \<and>
        (\<exists>l. lines (saveLine (snd ?r2)) = lines cd @ [l] \<and> 3 \<le> length (line_points l))"
    if t: "tool (props cd) = ''Pencil'' \<or> tool (props cd) = ''Eraser''"
  proof -
    have p1: "length (points (snd ?r1)) = 2"
      using move_stroke_tool(3) [OF t, of False e sse] assms(4) by simp
    have t': "tool (props (snd ?r1)) = ''Pencil'' \<or> tool (props (snd ?r1)) = ''Eraser''"
      using t move_stroke_tool(5) [OF t, of False e sse] by simp
    have p2: "3 \<le> length (points (snd ?r2))"
      using move_stroke_tool(2) [OF t', of "fst ?r1" e False] p1 by simp
    have l2: "lines (snd ?r2) = lines cd"
      using move_stroke_tool(4) [OF t', of "fst ?r1" e False] move_stroke_tool(4) [OF t, of False e sse]
      by simp
    have "lines (saveLine (snd ?r2)) = lines cd @
        [\<lparr>line_points = points (snd ?r2), line_brushColor = brushColor (props (snd ?r2)),
          line_brushRadius = brushRadius (props (snd ?r2))\<rparr>]"
      using p2 l2 by (simp add: saveLine_def)
    with p1 p2 show ?thesis by auto
  qed
  have other: "points (snd ?r1) = [] \<and> lines (saveLine (snd ?r2)) =
          (if tool (props cd) = ''Rectangle'' \<or> tool (props cd) = ''Circle'' then [] else lines cd)"
    if t: "tool (props cd) \<noteq> ''Pencil'' \<and> tool (props cd) \<noteq> ''Eraser''"
  proof -
    from t have t1: "tool (props cd) \<noteq> ''Pencil''" and t2: "tool (props cd) \<noteq> ''Eraser''" by auto
    have p1: "points (snd ?r1) = []"
      using move_other_tool(2) [OF t1 t2, of False e sse] assms(4) by simp
    have pr: "props (snd ?r1) = props cd" by (rule move_other_tool(4) [OF t1 t2])
    have t1': "tool (props (snd ?r1)) \<noteq> ''Pencil''" and t2': "tool (props (snd ?r1)) \<noteq> ''Eraser''"
      using t1 t2 pr by simp_all
    have p2: "points (snd ?r2) = []"
      using move_other_tool(2) [OF t1' t2', of "fst ?r1" e False] p1 by simp
    have l2: "lines (snd ?r2) =
          (if tool (props cd) = ''Rectangle'' \<or> tool (props cd) = ''Circle'' then [] else lines cd)"
      using move_other_tool(3) [OF t1' t2', of "fst ?r1" e False] move_other_tool(3) [OF t1 t2, of False e sse] pr
      by simp
    show ?thesis using p1 p2 l2 by (simp add: saveLine_def)
  qed
  show ?thesis unfolding s fst_conv snd_conv e using stroke other by blast
qed

theorem click_commits_a_dot_witness:
  "touches (mouseEvent 5 5) = [] \<and> \<not> disabled (props (exampleCanvas ''Pencil'' False 1)) \<and>
   \<not> enablePanAndZoom (props (exampleCanvas ''Pencil'' False 1)) \<and>
   points (exampleCanvas ''Pencil'' False 1) = [] \<and>
   length (points (snd (handleDrawStart DefaultState 0 (mouseEvent 5 5) (exampleCanvas ''Pencil'' False 1) False))) = 2 \<and>
   fst (handleDrawEnd (fst (handleDrawStart DefaultState 0 (mouseEvent 5 5) (exampleCanvas ''Pencil'' False 1) False))
          (mouseEvent 5 5)
          (snd (handleDrawStart DefaultState 0 (mouseEvent 5 5) (exampleCanvas ''Pencil'' False 1) False))) = DefaultState"
proof -
  have h: "touches (mouseEvent 5 5) = []" "\<not> disabled (props (exampleCanvas ''Pencil'' False 1))"
    "\<not> enablePanAndZoom (props (exampleCanvas ''Pencil'' False 1))"
    "points (exampleCanvas ''Pencil'' False 1) = []"
    by (simp_all add: mouseEvent_def exampleCanvas_def)
  have t: "tool (props (exampleCanvas ''Pencil'' False 1)) = ''Pencil''"
    by (simp add: exampleCanvas_def)
  from click_commits_a_dot [OF h, of 0 False] t h show ?thesis by blast
qed

section \<open>Properties of the span fill\<close>

lemma inRaster_setPixelColor [simp]: "inRaster (setPixelColor U img c p) x y = inRaster img x y"
  by (simp add: inRaster_def setPixelColor_def)

lemma rasterLaw_ok:
  "rasterLaw U ok \<Longrightarrow> ok img \<Longrightarrow> inRaster img x y \<Longrightarrow> ok (setPixelColor U img c (x, y))"
  unfolding rasterLaw_def setPixelColor_def by auto

lemma rasterLaw_get:
  "rasterLaw U ok \<Longrightarrow> ok img \<Longrightarrow> inRaster img x y \<Longrightarrow> inRaster img x' y' \<Longrightarrow>
   getColorAtPixel U (setPixelColor U img c (x, y)) x' y' =
     (if x' = x \<and> y' = y then c else getColorAtPixel U img x' y')"
  unfolding rasterLaw_def setPixelColor_def by auto

lemma isValidTarget_cong:
  "getColorAtPixel U img1 i j = getColorAtPixel U img i j \<Longrightarrow>
   isValidTarget U this img1 (i, j) = isValidTarget U this img (i, j)"
  by (simp add: isValidTarget_def)

lemma sameSize_inRaster: "sameSize img img' \<Longrightarrow> inRaster img' x y = inRaster img x y"
  by (simp add: sameSize_def inRaster_def)

lemma sameSize_setPixelColor: "sameSize img (setPixelColor U img c p)"
  by (simp add: sameSize_def setPixelColor_def)

lemma toInt32_id: "- (2 ^ 31) \<le> v \<Longrightarrow> v < 2 ^ 31 \<Longrightarrow> toInt32 v = v"
  by (simp add: toInt32_def sint_sbintrunc' signed_take_bit_int_eq_self)

lemma fitsInt32_setPixelColor [simp]: "fitsInt32 (setPixelColor U img c p) = fitsInt32 img"
  by (simp add: fitsInt32_def setPixelColor_def)

lemma sameSize_fitsInt32: "sameSize img img' \<Longrightarrow> fitsInt32 img' = fitsInt32 img"
  by (simp add: sameSize_def fitsInt32_def)

lemma getPixelNeighbour_Left:
  assumes "fitsInt32 img" "inRaster img m y"
  shows "getPixelNeighbour img Left m y = (if m = 0 then None else Some (m - 1, y))"
proof -
  from assms have b: "0 \<le> m" "m < 2 ^ 31" "0 \<le> y" "y < 2 ^ 31" "m < int (img_width img)"
    by (simp_all add: fitsInt32_def inRaster_def)
  then have tm: "toInt32 m = m" and ty: "toInt32 y = y" by (simp_all add: toInt32_id)
  from b have t1: "toInt32 (m - 1) = m - 1" by (intro toInt32_id) simp_all
  from b show ?thesis by (auto simp: getPixelNeighbour_def Let_def tm ty t1)
qed

lemma getPixelNeighbour_Right:
  assumes "fitsInt32 img" "inRaster img m y"
  shows "getPixelNeighbour img Right m y =
           (if m = int (img_width img) - 1 then None else Some (m + 1, y))"
proof -
  from assms have b: "0 \<le> m" "m + 1 < 2 ^ 31" "0 \<le> y" "y < 2 ^ 31" "m < int (img_width img)"
    by (simp_all add: fitsInt32_def inRaster_def)
  then have tm: "toInt32 m = m" and ty: "toInt32 y = y" by (simp_all add: toInt32_id)
  from b have t1: "toInt32 (m + 1) = m + 1" by (intro toInt32_id) simp_all
  from b show ?thesis by (auto simp: getPixelNeighbour_def Let_def tm ty t1)
qed

text \<open>Outside that range the coordinates wrap: the right neighbour of column \<open>2^32 - 1\<close> is column 0.\<close>

lemma getPixelNeighbour_wraps:
  "getPixelNeighbour stairImage Right 4294967295 1 = Some (0, 1) \<and>
   getPixelNeighbour stairImage Left 4294967296 1 = None \<and>
   getPixelNeighbour stairImage Left 4294967297 1 = Some (0, 1)"
  by code_simp

lemma fillLineAt_left_spec:
  "rasterLaw U ok \<Longrightarrow> ok img \<Longrightarrow> inRaster img m y \<Longrightarrow> fitsInt32 img \<Longrightarrow>
   fillLineAt_left U this img m y = (img', m') \<Longrightarrow>
     ok img' \<and> sameSize img img' \<and> 0 \<le> m' \<and> m' \<le> m \<and>
     (\<forall>i. m' \<le> i \<and> i < m \<longrightarrow>
        isValidTarget U this img (i, y) \<and> getColorAtPixel U img' i y = newColor this) \<and>
     (m' = 0 \<or> \<not> isValidTarget U this img (m' - 1, y)) \<and>
     (\<forall>i j. inRaster img i j \<and> \<not> (j = y \<and> m' \<le> i \<and> i < m) \<longrightarrow>
        getColorAtPixel U img' i j = getColorAtPixel U img i j)"
proof (induction U this img m y arbitrary: img' m' rule: fillLineAt_left.induct)
  case (1 U this img m y)
  note ok = "1.prems"(2) and ir = "1.prems"(3) and fit = "1.prems"(4) and res = "1.prems"(5)
  note law = "1.prems"(1)
  from ir have m0: "0 \<le> m" and mw: "m < int (img_width img)" and yr: "0 \<le> y" "y < int (img_height img)"
    by (auto simp: inRaster_def)
  show ?case
  proof (cases "m = 0")
    case True
    with getPixelNeighbour_Left [OF fit ir] have "getPixelNeighbour img Left m y = None" by simp
    with res have "img' = img" "m' = m" by (simp_all add: fillLineAt_left.simps [of U this img m y])
    with True ok show ?thesis by (auto simp: sameSize_def)
  next
    case False
    with getPixelNeighbour_Left [OF fit ir] have nb: "getPixelNeighbour img Left m y = Some (m - 1, y)"
      by simp
    have ir1: "inRaster img (m - 1) y" using False m0 mw yr by (simp add: inRaster_def)
    show ?thesis
    proof (cases "isValidTarget U this img (m - 1, y)")
      case nv: False
      with nb res have "img' = img" "m' = m"
        by (simp_all add: fillLineAt_left.simps [of U this img m y])
      with nv ok m0 show ?thesis by (auto simp: sameSize_def)
    next
      case v: True
      let ?img1 = "setPixelColor U img (newColor this) (m - 1, y)"
      from nb v res have rec: "fillLineAt_left U this ?img1 (m - 1) y = (img', m')"
        by (simp add: fillLineAt_left.simps [of U this img m y])
      have ok1: "ok ?img1" by (rule rasterLaw_ok [OF law ok ir1])
      have ir1': "inRaster ?img1 (m - 1) y" using ir1 by simp
      have g1: "getColorAtPixel U ?img1 i j =
          (if i = m - 1 \<and> j = y then newColor this else getColorAtPixel U img i j)"
        if "inRaster img i j" for i j
        by (rule rasterLaw_get [OF law ok ir1 that])
      note ih0 = "1.IH" [OF nb v law ok1, unfolded fst_conv]
      have fit1: "fitsInt32 ?img1" using fit by simp
      from ih0 [OF ir1' fit1 rec]
      have ih: "ok img'" "sameSize ?img1 img'" "0 \<le> m'" "m' \<le> m - 1"
        "\<forall>i. m' \<le> i \<and> i < m - 1 \<longrightarrow>
           isValidTarget U this ?img1 (i, y) \<and> getColorAtPixel U img' i y = newColor this"
        "m' = 0 \<or> \<not> isValidTarget U this ?img1 (m' - 1, y)"
        "\<forall>i j. inRaster ?img1 i j \<and> \<not> (j = y \<and> m' \<le> i \<and> i < m - 1) \<longrightarrow>
           getColorAtPixel U img' i j = getColorAtPixel U ?img1 i j"
        by simp_all
      have ss: "sameSize img img'" using ih(2) by (simp add: sameSize_def setPixelColor_def)
      have span: "isValidTarget U this img (i, y) \<and> getColorAtPixel U img' i y = newColor this"
        if "m' \<le> i" "i < m" for i
      proof (cases "i = m - 1")
        case True
        have "getColorAtPixel U img' (m - 1) y = getColorAtPixel U ?img1 (m - 1) y"
          using ih(7) ir1 by simp
        with True v g1 [OF ir1] show ?thesis by simp
      next
        case False
        with that have lt: "i < m - 1" by simp
        have iri: "inRaster img i y" using that ih(3) mw yr by (simp add: inRaster_def)
        have "getColorAtPixel U ?img1 i y = getColorAtPixel U img i y" using g1 [OF iri] False by simp
        then have "isValidTarget U this ?img1 (i, y) = isValidTarget U this img (i, y)"
          by (rule isValidTarget_cong)
        with ih(5) that(1) lt show ?thesis by simp
      qed
      have bnd: "m' = 0 \<or> \<not> isValidTarget U this img (m' - 1, y)"
      proof (cases "m' = 0")
        case True then show ?thesis ..
      next
        case False
        with ih(3,4) mw yr have iri: "inRaster img (m' - 1) y" by (simp add: inRaster_def)
        have "getColorAtPixel U ?img1 (m' - 1) y = getColorAtPixel U img (m' - 1) y"
          using g1 [OF iri] ih(4) by simp
        then have "isValidTarget U this ?img1 (m' - 1, y) = isValidTarget U this img (m' - 1, y)"
          by (rule isValidTarget_cong)
        with ih(6) False show ?thesis by simp
      qed
      have frame: "getColorAtPixel U img' i j = getColorAtPixel U img i j"
        if "inRaster img i j" "\<not> (j = y \<and> m' \<le> i \<and> i < m)" for i j
      proof -
        have "getColorAtPixel U img' i j = getColorAtPixel U ?img1 i j"
          using ih(7) that by auto
        also have "\<dots> = getColorAtPixel U img i j"
          using g1 [OF that(1)] that(2) ih(4) by auto
        finally show ?thesis .
      qed
      from ih(1) ss ih(3,4) span bnd frame show ?thesis by auto
    qed
  qed
qed

lemma fillLineAt_right_spec:
  "rasterLaw U ok \<Longrightarrow> ok img \<Longrightarrow> inRaster img m y \<Longrightarrow> fitsInt32 img \<Longrightarrow>
   fillLineAt_right U this img m y = (img', m') \<Longrightarrow>
     ok img' \<and> sameSize img img' \<and> m \<le> m' \<and> m' < int (img_width img) \<and>
     (\<forall>i. m < i \<and> i \<le> m' \<longrightarrow>
        isValidTarget U this img (i, y) \<and> getColorAtPixel U img' i y = newColor this) \<and>
     (m' = int (img_width img) - 1 \<or> \<not> isValidTarget U this img (m' + 1, y)) \<and>
     (\<forall>i j. inRaster img i j \<and> \<not> (j = y \<and> m < i \<and> i \<le> m') \<longrightarrow>
        getColorAtPixel U img' i j = getColorAtPixel U img i j)"
proof (induction U this img m y arbitrary: img' m' rule: fillLineAt_right.induct)
  case (1 U this img m y)
  note ok = "1.prems"(2) and ir = "1.prems"(3) and fit = "1.prems"(4) and res = "1.prems"(5)
  note law = "1.prems"(1)
  from ir have m0: "0 \<le> m" and mw: "m < int (img_width img)" and yr: "0 \<le> y" "y < int (img_height img)"
    by (auto simp: inRaster_def)
  show ?case
  proof (cases "m = int (img_width img) - 1")
    case True
    with getPixelNeighbour_Right [OF fit ir] have "getPixelNeighbour img Right m y = None" by simp
    with res have "img' = img" "m' = m" by (simp_all add: fillLineAt_right.simps [of U this img m y])
    with True ok show ?thesis by (auto simp: sameSize_def)
  next
    case False
    with getPixelNeighbour_Right [OF fit ir] have nb: "getPixelNeighbour img Right m y = Some (m + 1, y)"
      by simp
    have ir1: "inRaster img (m + 1) y" using False m0 mw yr by (simp add: inRaster_def)
    show ?thesis
    proof (cases "isValidTarget U this img (m + 1, y)")
      case nv: False
      with nb res have "img' = img" "m' = m"
        by (simp_all add: fillLineAt_right.simps [of U this img m y])
      with nv ok mw show ?thesis by (auto simp: sameSize_def)
    next
      case v: True
      let ?img1 = "setPixelColor U img (newColor this) (m + 1, y)"
      from nb v res have rec: "fillLineAt_right U this ?img1 (m + 1) y = (img', m')"
        by (simp add: fillLineAt_right.simps [of U this img m y])
      have ok1: "ok ?img1" by (rule rasterLaw_ok [OF law ok ir1])
      have ir1': "inRaster ?img1 (m + 1) y" using ir1 by simp
      have w1: "img_width ?img1 = img_width img" by (simp add: setPixelColor_def)
      have g1: "getColorAtPixel U ?img1 i j =
          (if i = m + 1 \<and> j = y then newColor this else getColorAtPixel U img i j)"
        if "inRaster img i j" for i j
        by (rule rasterLaw_get [OF law ok ir1 that])
      note ih0 = "1.IH" [OF nb v law ok1, unfolded fst_conv]
      have fit1: "fitsInt32 ?img1" using fit by simp
      from ih0 [OF ir1' fit1 rec]
      have ih: "ok img'" "sameSize ?img1 img'" "m + 1 \<le> m'" "m' < int (img_width img)"
        "\<forall>i. m + 1 < i \<and> i \<le> m' \<longrightarrow>
           isValidTarget U this ?img1 (i, y) \<and> getColorAtPixel U img' i y = newColor this"
        "m' = int (img_width img) - 1 \<or> \<not> isValidTarget U this ?img1 (m' + 1, y)"
        "\<forall>i j. inRaster ?img1 i j \<and> \<not> (j = y \<and> m + 1 < i \<and> i \<le> m') \<longrightarrow>
           getColorAtPixel U img' i j = getColorAtPixel U ?img1 i j"
        by (simp_all add: w1)
      have ss: "sameSize img img'" using ih(2) by (simp add: sameSize_def setPixelColor_def)
      have span: "isValidTarget U this img (i, y) \<and> getColorAtPixel U img' i y = newColor this"
        if "m < i" "i \<le> m'" for i
      proof (cases "i = m + 1")
        case True
        have "getColorAtPixel U img' (m + 1) y = getColorAtPixel U ?img1 (m + 1) y"
          using ih(7) ir1 by simp
        with True v g1 [OF ir1] show ?thesis by simp
      next
        case False
        with that have lt: "m + 1 < i" by simp
        have iri: "inRaster img i y" using that ih(4) m0 yr by (simp add: inRaster_def)
        have "getColorAtPixel U ?img1 i y = getColorAtPixel U img i y" using g1 [OF iri] False by simp
        then have "isValidTarget U this ?img1 (i, y) = isValidTarget U this img (i, y)"
          by (rule isValidTarget_cong)
        with ih(5) that(2) lt show ?thesis by simp
      qed
      have bnd: "m' = int (img_width img) - 1 \<or> \<not> isValidTarget U this img (m' + 1, y)"
      proof (cases "m' = int (img_width img) - 1")
        case True then show ?thesis ..
      next
        case False
        with ih(3,4) m0 yr have iri: "inRaster img (m' + 1) y" by (simp add: inRaster_def)
        have "getColorAtPixel U ?img1 (m' + 1) y = getColorAtPixel U img (m' + 1) y"
          using g1 [OF iri] ih(3) by simp
        then have "isValidTarget U this ?img1 (m' + 1, y) = isValidTarget U this img (m' + 1, y)"
          by (rule isValidTarget_cong)
        with ih(6) False show ?thesis by simp
      qed
      have frame: "getColorAtPixel U img' i j = getColorAtPixel U img i j"
        if "inRaster img i j" "\<not> (j = y \<and> m < i \<and> i \<le> m')" for i j
      proof -
        have "getColorAtPixel U img' i j = getColorAtPixel U ?img1 i j"
          using ih(7) that by auto
        also have "\<dots> = getColorAtPixel U img i j"
          using g1 [OF that(1)] that(2) ih(3) by auto
        finally show ?thesis .
      qed
      from ih(1) ss ih(3,4) span bnd frame show ?thesis by auto
    qed
  qed
qed

lemma fillLineAt_spec:
  assumes law: "rasterLaw U ok" and ok: "ok img" and ir: "inRaster img x y"
    and fit: "fitsInt32 img"
    and v: "isValidTarget U this img (x, y)"
    and res: "fillLineAt U this img x y = (seg, img')"
  shows "ok img' \<and> isSpanOf U this img x y seg \<and> paintedSpan U (newColor this) img y seg img'"
proof -
  let ?img1 = "setPixelColor U img (newColor this) (x, y)"
  obtain img2 minX where l: "fillLineAt_left U this ?img1 x y = (img2, minX)" by fastforce
  obtain img3 maxX where r: "fillLineAt_right U this img2 x y = (img3, maxX)" by fastforce
  from res v l r have sp: "seg = (minX, maxX)" and im: "img' = img3"
    by (simp_all add: fillLineAt_def)
  have ok1: "ok ?img1" by (rule rasterLaw_ok [OF law ok ir])
  have ir1: "inRaster ?img1 x y" using ir by simp
  have g1: "getColorAtPixel U ?img1 i j =
      (if i = x \<and> j = y then newColor this else getColorAtPixel U img i j)"
    if "inRaster img i j" for i j
    by (rule rasterLaw_get [OF law ok ir that])
  have fit1: "fitsInt32 ?img1" using fit by simp
  from fillLineAt_left_spec [OF law ok1 ir1 fit1 l]
  have L: "ok img2" "sameSize ?img1 img2" "0 \<le> minX" "minX \<le> x"
    "\<forall>i. minX \<le> i \<and> i < x \<longrightarrow>
       isValidTarget U this ?img1 (i, y) \<and> getColorAtPixel U img2 i y = newColor this"
    "minX = 0 \<or> \<not> isValidTarget U this ?img1 (minX - 1, y)"
    "\<forall>i j. inRaster ?img1 i j \<and> \<not> (j = y \<and> minX \<le> i \<and> i < x) \<longrightarrow>
       getColorAtPixel U img2 i j = getColorAtPixel U ?img1 i j"
    by simp_all
  have ss2: "sameSize img img2" using L(2) by (simp add: sameSize_def setPixelColor_def)
  have ir2: "inRaster img2 x y" using ir ss2 by (simp add: sameSize_inRaster)
  have w2: "img_width img2 = img_width img" using ss2 by (simp add: sameSize_def)
  have fit2: "fitsInt32 img2" using fit ss2 by (simp add: sameSize_fitsInt32)
  from fillLineAt_right_spec [OF law L(1) ir2 fit2 r]
  have R: "ok img3" "sameSize img2 img3" "x \<le> maxX" "maxX < int (img_width img)"
    "\<forall>i. x < i \<and> i \<le> maxX \<longrightarrow>
       isValidTarget U this img2 (i, y) \<and> getColorAtPixel U img3 i y = newColor this"
    "maxX = int (img_width img) - 1 \<or> \<not> isValidTarget U this img2 (maxX + 1, y)"
    "\<forall>i j. inRaster img2 i j \<and> \<not> (j = y \<and> x < i \<and> i \<le> maxX) \<longrightarrow>
       getColorAtPixel U img3 i j = getColorAtPixel U img2 i j"
    by (simp_all add: w2)
  have ss3: "sameSize img img3" using ss2 R(2) by (simp add: sameSize_def)
  from ir have yr: "0 \<le> y" "y < int (img_height img)" by (auto simp: inRaster_def)
  have rowr: "inRaster img i y" if "minX \<le> i" "i \<le> maxX" for i
    using that L(3) R(4) yr by (simp add: inRaster_def)
  \<comment> \<open>the colour of a pixel of the row left of \<open>x\<close> is read by the left loop as it was\<close>
  have vleft: "isValidTarget U this ?img1 (i, y) = isValidTarget U this img (i, y)"
    if "0 \<le> i" "i < x" for i
  proof -
    have "inRaster img i y" using that ir by (simp add: inRaster_def)
    from g1 [OF this] that show ?thesis by (intro isValidTarget_cong) simp
  qed
  have vright: "isValidTarget U this img2 (i, y) = isValidTarget U this img (i, y)"
    if "x < i" "i < int (img_width img)" for i
  proof -
    have iri: "inRaster img i y" using that ir by (simp add: inRaster_def)
    have "getColorAtPixel U img2 i y = getColorAtPixel U ?img1 i y"
      using L(7) iri that by simp
    also have "\<dots> = getColorAtPixel U img i y" using g1 [OF iri] that by simp
    finally show ?thesis by (rule isValidTarget_cong)
  qed
  have valid: "isValidTarget U this img (i, y)" if "minX \<le> i" "i \<le> maxX" for i
  proof -
    consider "i < x" | "i = x" | "x < i" by linarith
    then show ?thesis
    proof cases
      case 1
      with L(5) that(1) have "isValidTarget U this ?img1 (i, y)" by simp
      with vleft [of i] 1 that(1) L(3) show ?thesis by simp
    next
      case 2 with v show ?thesis by simp
    next
      case 3
      with R(5) that(2) have "isValidTarget U this img2 (i, y)" by simp
      with vright [of i] 3 that(2) R(4) show ?thesis by simp
    qed
  qed
  have bl: "minX = 0 \<or> \<not> isValidTarget U this img (minX - 1, y)"
    using L(6) vleft [of "minX - 1"] L(3,4) by auto
  have br: "maxX = int (img_width img) - 1 \<or> \<not> isValidTarget U this img (maxX + 1, y)"
    using R(6) vright [of "maxX + 1"] R(3,4) by auto
  have col: "getColorAtPixel U img3 i j =
      (if j = y \<and> minX \<le> i \<and> i \<le> maxX then newColor this else getColorAtPixel U img i j)"
    if irij: "inRaster img i j" for i j
  proof (cases "j = y \<and> minX \<le> i \<and> i \<le> maxX")
    case True
    consider "i < x" | "i = x" | "x < i" by linarith
    then have "getColorAtPixel U img3 i y = newColor this"
    proof cases
      case 1
      have "getColorAtPixel U img3 i y = getColorAtPixel U img2 i y"
        using R(7) irij True 1 ss2 by (simp add: sameSize_inRaster)
      with L(5) True 1 show ?thesis by simp
    next
      case 2
      have "getColorAtPixel U img3 x y = getColorAtPixel U img2 x y"
        using R(7) ir2 by simp
      also have "\<dots> = getColorAtPixel U ?img1 x y" using L(7) ir1 by simp
      also have "\<dots> = newColor this" using g1 [OF ir] by simp
      finally show ?thesis using 2 by simp
    next
      case 3
      with R(5) True show ?thesis by simp
    qed
    with True show ?thesis by simp
  next
    case False
    have "getColorAtPixel U img3 i j = getColorAtPixel U img2 i j"
      using R(7) irij False ss2 L(4) R(3) by (auto simp: sameSize_inRaster)
    also have "\<dots> = getColorAtPixel U ?img1 i j"
      using L(7) irij False L(4) R(3) by auto
    also have "\<dots> = getColorAtPixel U img i j"
      using g1 [OF irij] False L(4) R(3) by auto
    finally show ?thesis using False by auto
  qed
  show ?thesis
    unfolding sp im isSpanOf_def paintedSpan_def fst_conv snd_conv
    using R(1) ss3 L(3,4) R(3,4) valid bl br col by blast
qed

lemma raster_index:
  assumes "0 \<le> x" "x < int w" "0 \<le> y" "y < int h"
  shows "nat (y * int w + x) < w * h"
proof -
  have "(y + 1) * int w \<le> int h * int w" using assms by (intro mult_right_mono) auto
  then have "y * int w + x < int (w * h)" using assms(2) by (simp add: algebra_simps)
  then show ?thesis using assms by (simp add: nat_less_iff)
qed

lemma raster_index_inj:
  assumes "0 \<le> x" "x < int w" "0 \<le> x'" "x' < int w" "0 \<le> y" "0 \<le> y'"
    and "nat (y * int w + x) = nat (y' * int w + x')"
  shows "x = x' \<and> y = y'"
proof -
  have e: "y * int w + x = y' * int w + x'" using assms by (simp add: eq_nat_nat_iff)
  have "(y * int w + x) div int w = y" using assms by simp
  moreover have "(y' * int w + x') div int w = y'" using assms by simp
  ultimately have "y = y'" using e by simp
  with e show ?thesis by simp
qed

lemma rasterLaw_rasterUtils: "rasterLaw rasterUtils rasterOk"
  unfolding rasterLaw_def
proof (intro allI impI conjI)
  fix img :: "ColorRGBA list ImageData" and c x y
  assume h: "rasterOk img \<and> inRaster img x y"
  then show "rasterOk (img\<lparr>img_data := setColorAtPixel rasterUtils img c x y\<rparr>)"
    by (simp add: rasterOk_def rasterUtils_def raster_setColorAtPixel_def)
next
  fix img :: "ColorRGBA list ImageData" and c x y x' y'
  assume h: "rasterOk img \<and> inRaster img x y" and h': "inRaster img x' y'"
  let ?w = "img_width img"
  from h h' have r: "nat (y * int ?w + x) < length (img_data img)"
      "nat (y' * int ?w + x') < length (img_data img)"
    using raster_index [of x ?w y "img_height img"] raster_index [of x' ?w y' "img_height img"]
    by (simp_all add: rasterOk_def inRaster_def)
  show "getColorAtPixel rasterUtils (img\<lparr>img_data := setColorAtPixel rasterUtils img c x y\<rparr>) x' y' =
        (if x' = x \<and> y' = y then c else getColorAtPixel rasterUtils img x' y')"
  proof (cases "x' = x \<and> y' = y")
    case True
    with r show ?thesis
      by (simp add: rasterUtils_def raster_getColorAtPixel_def raster_setColorAtPixel_def)
  next
    case False
    then have "nat (y * int ?w + x) \<noteq> nat (y' * int ?w + x')"
      using raster_index_inj [of x ?w x' y y'] h h' by (auto simp: inRaster_def)
    with r False show ?thesis
      by (auto simp: rasterUtils_def raster_getColorAtPixel_def raster_setColorAtPixel_def)
  qed
qed

lemma fillQueue_scan_done:
  assumes "\<not> (currX \<noteq> - 1 \<and> currX \<le> endX)"
  shows "fillQueue (Suc n) U T img q (Scanning (startX, endX, y, parentY) currX) =
         fillQueue n U T img q Popping"
  by (simp only: fillQueue.simps(4) assms if_False)

lemma fillQueue_scan_invalid:
  assumes "currX \<noteq> - 1" "currX \<le> endX" "fillLineAt U T img currX y = ((- 1, - 1), img)"
  shows "fillQueue (Suc n) U T img q (Scanning (startX, endX, y, parentY) currX) =
         fillQueue n U T img q (Scanning (startX, endX, y, parentY) (currX + 1))"
  using assms by simp

lemma fillQueue_scan_valid:
  assumes "currX \<noteq> - 1" "currX \<le> endX" "fillLineAt U T img currX y = ((ls, le), img')"
    and "ls \<noteq> - 1" "le \<noteq> - 1" "img_height img' = img_height img"
  shows "fillQueue (Suc n) U T img q (Scanning (startX, endX, y, parentY) currX) =
         fillQueue n U T img' (queuedRows img (startX, endX, y, parentY) (ls, le) @ q)
           (Scanning (startX, endX, y, parentY) (le + 1))"
  using assms by (simp add: queuedRows_def rowsAboveAndBelow_def)

lemma floodFill_loop_step:
  "floodFill_loop (Suc n) target c pd (p # st) =
     floodFill_loop n target c (fst (floodFill_step target c pd p st)) (snd (floodFill_step target c pd p st))"
  by (cases p) (simp add: floodFill_step_def)

lemma example_seed_color: "getColorAtPixel rasterUtils exampleImage 0 1 = white"
  by (simp add: rasterUtils_def raster_getColorAtPixel_def exampleImage_def)

lemma stair_seed_row:
  "fillLineAt rasterUtils stairFields stairImage 1 1 = ((1, 1), stairSeedRow)"
  by code_simp

lemma stair_last_row:
  "fillLineAt rasterUtils stairFields stairSeedRow 1 2 = ((1, 2), stairLastRow)"
  by code_simp

lemma stair_fill:
  "fill 17 rasterUtils stairImage redColor 1 1 0 = None \<and>
   fill 18 rasterUtils stairImage redColor 1 1 0 = Some stairFilled"
  by code_simp

text \<open>
  Claim C6, as stated, fails for \<open>floodFill\<close> of index.js, the fill that the component
  runs: it is a stack fill of single pixels. On a canvas of one row of three white
  pixels and the seed (1,0), the first pass of the loop paints the seed pixel only, the
  two other pixels of the span are still white after it, and what it leaves on the stack
  is the four neighbouring pixels of the seed, not rows; the row is painted in three of
  the 13 passes that the fill takes.
\<close>

theorem floodFill_paints_pixel_by_pixel_counterexample:
  "floodFill_step (Some 4294967295) 4278190335 whiteRow (1, 0) [] =
     (whiteRowSeedPainted, [(1, - 1), (1, 1), (0, 0), (2, 0)]) \<and>
   floodFill 13 whiteRow 1 0 4278190335 =
     floodFill_loop 12 (Some 4294967295) 4278190335 whiteRowSeedPainted [(1, - 1), (1, 1), (0, 0), (2, 0)] \<and>
   getPixel whiteRowSeedPainted 0 0 = Some 4294967295 \<and>
   getPixel whiteRowSeedPainted 2 0 = Some 4294967295 \<and>
   floodFill 12 whiteRow 1 0 4278190335 = None \<and>
   floodFill 13 whiteRow 1 0 4278190335 =
     Some \<lparr>width = 3, height = 1, data = [4278190335, 4278190335, 4278190335]\<rparr>"
  by code_simp

text \<open>
  Claim C6, amended. The span fill is \<open>fill\<close> of the class \<open>FloodFill\<close> (FloodFill.js).
  When the colour of the seed pixel does not match the new colour within the tolerance,
  \<open>fill\<close> queues the line of the seed, and \<open>fillQueue\<close> treats every queued line, the
  one of the seed and the ones queued later alike, as follows, on images whose
  coordinates are 32-bit integers and with helpers of FloodFillUtils that satisfy
  \<open>rasterLaw\<close>. It takes the line on top of the queue and scans its columns from the
  first. At a column whose pixel matches the colour of the seed within the tolerance,
  \<open>fillLineAt\<close> extends left and right from that column while the pixels match and stops
  at the first pixel that does not or at the border (\<open>isSpanOf\<close>), paints that whole
  span and nothing else in that one call (\<open>paintedSpan\<close>), and \<open>fillQueue\<close> then
  queues the rows immediately above and below with that span for the same treatment
  (only the row away from the parent row when the span lies within a line that came from
  a parent row; never a row outside the image: \<open>queuedRows\<close>) and goes on behind the
  span. At a column whose pixel does not match, nothing is painted or queued and the
  scan goes on with the next column. Behind the last column of the line the next line is
  taken, and with an empty queue the fill ends. \<open>floodFill\<close> of index.js, the fill that
  the component runs, is not a span fill: each pass of its loop takes one pixel from
  the stack and, when it has the colour of the seed exactly, paints that one pixel and
  pushes its four neighbours.
\<close>

theorem fill_proceeds_by_spans:
  "(\<not> isSameColor U (getColorAtPixel U img0 x y) (colorToRGBA U color) tol \<longrightarrow>
      fill (Suc n) U img0 color x y tol =
        fillQueue n U (seedFields U img0 color x y tol) img0 [] (Scanning (x, x, y, - 1) x)) \<and>
   fillQueue (Suc n) U T img (line # q) Popping = fillQueue n U T img q (Scanning line (fst line)) \<and>
   fillQueue (Suc n) U T img [] Popping = Some img \<and>
   (rasterLaw U ok \<and> ok img \<and> fitsInt32 img \<and> inRaster img currX row \<and> currX \<le> endX \<and>
    isValidTarget U T img (currX, row) \<longrightarrow>
      isSpanOf U T img currX row (fst (fillLineAt U T img currX row)) \<and>
      paintedSpan U (newColor T) img row (fst (fillLineAt U T img currX row))
        (snd (fillLineAt U T img currX row)) \<and>
      ok (snd (fillLineAt U T img currX row)) \<and>
      fillQueue (Suc n) U T img q (Scanning (startX, endX, row, parentY) currX) =
        fillQueue n U T (snd (fillLineAt U T img currX row))
          (queuedRows img (startX, endX, row, parentY) (fst (fillLineAt U T img currX row)) @ q)
          (Scanning (startX, endX, row, parentY) (snd (fst (fillLineAt U T img currX row)) + 1))) \<and>
   (nextX \<noteq> - 1 \<and> nextX \<le> endX \<and> \<not> isValidTarget U T img (nextX, row) \<longrightarrow>
      fillLineAt U T img nextX row = ((- 1, - 1), img) \<and>
      fillQueue (Suc n) U T img q (Scanning (startX, endX, row, parentY) nextX) =
        fillQueue n U T img q (Scanning (startX, endX, row, parentY) (nextX + 1))) \<and>
   (pastX = - 1 \<or> endX < pastX \<longrightarrow>
      fillQueue (Suc n) U T img q (Scanning (startX, endX, row, parentY) pastX) =
        fillQueue n U T img q Popping) \<and>
   floodFill_loop (Suc n) target c pd (p # st) =
     floodFill_loop n target c (fst (floodFill_step target c pd p st)) (snd (floodFill_step target c pd p st)) \<and>
   (wellFormed pd \<and> inBounds pd sx sy \<and> getPixel pd sx sy = target \<longrightarrow>
      snd (floodFill_step target c pd (sx, sy) st) =
        (sx, sy - 1) # (sx, sy + 1) # (sx - 1, sy) # (sx + 1, sy) # st \<and>
      sameShape pd (fst (floodFill_step target c pd (sx, sy) st)) \<and>
      (\<forall>i j. inBounds pd i j \<longrightarrow>
         pixelAt (fst (floodFill_step target c pd (sx, sy) st)) i j =
           (if i = sx \<and> j = sy then c else pixelAt pd i j)))"
proof -
  have start: "fill (Suc n) U img0 color x y tol =
      fillQueue n U (seedFields U img0 color x y tol) img0 [] (Scanning (x, x, y, - 1) x)"
    if "\<not> isSameColor U (getColorAtPixel U img0 x y) (colorToRGBA U color) tol"
  proof -
    let ?T = "seedFields U img0 color x y tol"
    have "fill (Suc n) U img0 color x y tol = fillQueue (Suc n) U ?T img0 [(x, x, y, - 1)] Popping"
      using that by (simp add: fill_def seedFields_def Let_def del: fillQueue.simps)
    also have "\<dots> = fillQueue n U ?T img0 [] (Scanning (x, x, y, - 1) x)"
      by (simp only: fillQueue.simps(3) fst_conv)
    finally show ?thesis .
  qed
  have pop: "fillQueue (Suc n) U T img (line # q) Popping = fillQueue n U T img q (Scanning line (fst line))"
    by (simp only: fillQueue.simps(3))
  have fin: "fillQueue (Suc n) U T img [] Popping = Some img"
    by (simp only: fillQueue.simps(2))
  have valid: "isSpanOf U T img currX row (fst (fillLineAt U T img currX row)) \<and>
      paintedSpan U (newColor T) img row (fst (fillLineAt U T img currX row))
        (snd (fillLineAt U T img currX row)) \<and>
      ok (snd (fillLineAt U T img currX row)) \<and>
      fillQueue (Suc n) U T img q (Scanning (startX, endX, row, parentY) currX) =
        fillQueue n U T (snd (fillLineAt U T img currX row))
          (queuedRows img (startX, endX, row, parentY) (fst (fillLineAt U T img currX row)) @ q)
          (Scanning (startX, endX, row, parentY) (snd (fst (fillLineAt U T img currX row)) + 1))"
    if h: "rasterLaw U ok \<and> ok img \<and> fitsInt32 img \<and> inRaster img currX row \<and> currX \<le> endX \<and>
           isValidTarget U T img (currX, row)"
  proof -
    from h have law: "rasterLaw U ok" and ok: "ok img" and fit: "fitsInt32 img"
      and ir: "inRaster img currX row" and le: "currX \<le> endX"
      and v: "isValidTarget U T img (currX, row)" by blast+
    obtain ls le' img' where res: "fillLineAt U T img currX row = ((ls, le'), img')"
      by (metis prod.exhaust)
    from fillLineAt_spec [OF law ok ir fit v res]
    have ok': "ok img'" and sp: "isSpanOf U T img currX row (ls, le')"
      and pa: "paintedSpan U (newColor T) img row (ls, le') img'" by simp_all
    from sp have b: "0 \<le> ls" "ls \<le> currX" "currX \<le> le'" by (simp_all add: isSpanOf_def)
    from ir have c0: "0 \<le> currX" by (simp add: inRaster_def)
    from pa have hh: "img_height img' = img_height img" by (simp add: paintedSpan_def sameSize_def)
    have ne: "currX \<noteq> - 1" "ls \<noteq> - 1" "le' \<noteq> - 1" using c0 b by simp_all
    note st = fillQueue_scan_valid [OF ne(1) le res ne(2) ne(3) hh, of n q startX parentY]
    from sp pa ok' st show ?thesis unfolding res fst_conv snd_conv by blast
  qed
  have invalid: "fillLineAt U T img nextX row = ((- 1, - 1), img) \<and>
      fillQueue (Suc n) U T img q (Scanning (startX, endX, row, parentY) nextX) =
        fillQueue n U T img q (Scanning (startX, endX, row, parentY) (nextX + 1))"
    if h: "nextX \<noteq> - 1 \<and> nextX \<le> endX \<and> \<not> isValidTarget U T img (nextX, row)"
  proof -
    from h have nv: "fillLineAt U T img nextX row = ((- 1, - 1), img)"
      by (simp add: fillLineAt_def)
    from h have a: "nextX \<noteq> - 1" and b: "nextX \<le> endX" by blast+
    from nv fillQueue_scan_invalid [OF a b nv] show ?thesis by blast
  qed
  have over: "fillQueue (Suc n) U T img q (Scanning (startX, endX, row, parentY) pastX) =
        fillQueue n U T img q Popping"
    if "pastX = - 1 \<or> endX < pastX"
    by (rule fillQueue_scan_done) (use that in auto)
  have pixel: "snd (floodFill_step target c pd (sx, sy) st) =
        (sx, sy - 1) # (sx, sy + 1) # (sx - 1, sy) # (sx + 1, sy) # st \<and>
      sameShape pd (fst (floodFill_step target c pd (sx, sy) st)) \<and>
      (\<forall>i j. inBounds pd i j \<longrightarrow>
         pixelAt (fst (floodFill_step target c pd (sx, sy) st)) i j =
           (if i = sx \<and> j = sy then c else pixelAt pd i j))"
    if h: "wellFormed pd \<and> inBounds pd sx sy \<and> getPixel pd sx sy = target"
  proof -
    from h have wf: "wellFormed pd" and ib: "inBounds pd sx sy" and g: "getPixel pd sx sy = target"
      by blast+
    let ?pd = "pd\<lparr>data := writeU32 (data pd) (sy * int (width pd) + sx) c\<rparr>"
    from g have st: "floodFill_step target c pd (sx, sy) st =
        (?pd, (sx, sy - 1) # (sx, sy + 1) # (sx - 1, sy) # (sx + 1, sy) # st)"
      by (simp add: floodFill_step_def)
    have sh: "sameShape pd ?pd" by (simp add: sameShape_def writeU32_def)
    have pix: "pixelAt ?pd i j = (if i = sx \<and> j = sy then c else pixelAt pd i j)"
      if "inBounds pd i j" for i j
      using pixelAt_write [OF ib that] wf by (simp add: wellFormed_def)
    from sh pix show ?thesis unfolding st fst_conv snd_conv by blast
  qed
  from start pop fin valid invalid over floodFill_loop_step [of n target c pd p st] pixel
  show ?thesis by blast
qed

theorem fill_proceeds_by_spans_witness:
  "\<not> isSameColor rasterUtils (getColorAtPixel rasterUtils stairImage 1 1) (colorToRGBA rasterUtils redColor) 0 \<and>
   seedFields rasterUtils stairImage redColor 1 1 0 = stairFields \<and>
   fill (Suc 17) rasterUtils stairImage redColor 1 1 0 =
     fillQueue 17 rasterUtils stairFields stairImage [] (Scanning (1, 1, 1, - 1) 1) \<and>
   rasterLaw rasterUtils rasterOk \<and> rasterOk stairImage \<and> fitsInt32 stairImage \<and>
   inRaster stairImage 1 1 \<and> isValidTarget rasterUtils stairFields stairImage (1, 1) \<and>
   isSpanOf rasterUtils stairFields stairImage 1 1 (1, 1) \<and>
   paintedSpan rasterUtils redColor stairImage 1 (1, 1) stairSeedRow \<and>
   fillQueue (Suc 16) rasterUtils stairFields stairImage [] (Scanning (1, 1, 1, - 1) 1) =
     fillQueue 16 rasterUtils stairFields stairSeedRow [(1, 1, 2, 1), (1, 1, 0, 1)]
       (Scanning (1, 1, 1, - 1) 2) \<and>
   fillQueue (Suc 15) rasterUtils stairFields stairSeedRow [(1, 1, 2, 1), (1, 1, 0, 1)]
       (Scanning (1, 1, 1, - 1) 2) =
     fillQueue 15 rasterUtils stairFields stairSeedRow [(1, 1, 2, 1), (1, 1, 0, 1)] Popping \<and>
   fillQueue (Suc 14) rasterUtils stairFields stairSeedRow [(1, 1, 2, 1), (1, 1, 0, 1)] Popping =
     fillQueue 14 rasterUtils stairFields stairSeedRow [(1, 1, 0, 1)] (Scanning (1, 1, 2, 1) 1) \<and>
   rasterOk stairSeedRow \<and> fitsInt32 stairSeedRow \<and> inRaster stairSeedRow 1 2 \<and>
   isValidTarget rasterUtils stairFields stairSeedRow (1, 2) \<and>
   isSpanOf rasterUtils stairFields stairSeedRow 1 2 (1, 2) \<and>
   paintedSpan rasterUtils redColor stairSeedRow 2 (1, 2) stairLastRow \<and>
   fillQueue (Suc 13) rasterUtils stairFields stairSeedRow [(1, 1, 0, 1)] (Scanning (1, 1, 2, 1) 1) =
     fillQueue 13 rasterUtils stairFields stairLastRow [(1, 2, 1, 2), (1, 1, 0, 1)]
       (Scanning (1, 1, 2, 1) 3) \<and>
   \<not> isValidTarget rasterUtils stairFields stairLastRow (1, 1) \<and>
   fillQueue (Suc 10) rasterUtils stairFields stairLastRow [(1, 1, 0, 1)] (Scanning (1, 2, 1, 2) 1) =
     fillQueue 10 rasterUtils stairFields stairLastRow [(1, 1, 0, 1)] (Scanning (1, 2, 1, 2) 2) \<and>
   fill 17 rasterUtils stairImage redColor 1 1 0 = None \<and>
   fill 18 rasterUtils stairImage redColor 1 1 0 = Some stairFilled \<and>
   wellFormed whiteRow \<and> inBounds whiteRow 1 0 \<and> getPixel whiteRow 1 0 = Some 4294967295 \<and>
   snd (floodFill_step (Some 4294967295) 4278190335 whiteRow (1, 0) []) =
     [(1, - 1), (1, 1), (0, 0), (2, 0)] \<and>
   pixelAt (fst (floodFill_step (Some 4294967295) 4278190335 whiteRow (1, 0) [])) 0 0 = 4294967295 \<and>
   pixelAt (fst (floodFill_step (Some 4294967295) 4278190335 whiteRow (1, 0) [])) 1 0 = 4278190335 \<and>
   pixelAt (fst (floodFill_step (Some 4294967295) 4278190335 whiteRow (1, 0) [])) 2 0 = 4294967295"
proof -
  have sf: "seedFields rasterUtils stairImage redColor 1 1 0 = stairFields"
    by (simp add: seedFields_def stairFields_def rasterUtils_def raster_getColorAtPixel_def
        rgba_colorToRGBA_def stairImage_def)
  have ns: "\<not> isSameColor rasterUtils (getColorAtPixel rasterUtils stairImage 1 1)
      (colorToRGBA rasterUtils redColor) 0"
    by (simp add: rasterUtils_def raster_getColorAtPixel_def rgba_colorToRGBA_def stairImage_def
        rgba_isSameColor_def colorDistance_def white_def redColor_def)
  have nc: "newColor stairFields = redColor" by (simp add: stairFields_def)
  have e2: "(1 :: int) + 1 = 2" and e3: "(2 :: int) + 1 = 3" by simp_all
  \<comment> \<open>the line of the seed\<close>
  have okA: "rasterOk stairImage" by (simp add: rasterOk_def stairImage_def)
  have fitA: "fitsInt32 stairImage" by (simp add: fitsInt32_def stairImage_def)
  have irA: "inRaster stairImage 1 1" by (simp add: inRaster_def stairImage_def)
  have vA: "isValidTarget rasterUtils stairFields stairImage (1, 1)"
    by (simp add: isValidTarget_def stairFields_def rasterUtils_def raster_getColorAtPixel_def
        stairImage_def rgba_isSameColor_def colorDistance_def)
  have rowsA: "queuedRows stairImage (1, 1, 1, - 1) (1, 1) @ [] = [(1, 1, 2, 1), (1, 1, 0, 1)]"
    by (simp add: queuedRows_def rowsAboveAndBelow_def stairImage_def)
  note a1 = fill_proceeds_by_spans [where U = rasterUtils and img0 = stairImage
      and x = 1 and y = 1 and color = redColor and tol = 0 and n = 17,
      THEN conjunct1, THEN mp, OF ns, unfolded sf]
  have hypA: "rasterLaw rasterUtils rasterOk \<and> rasterOk stairImage \<and> fitsInt32 stairImage \<and>
      inRaster stairImage 1 1 \<and> (1 :: int) \<le> 1 \<and> isValidTarget rasterUtils stairFields stairImage (1, 1)"
    using rasterLaw_rasterUtils okA fitA irA vA by simp
  note A = fill_proceeds_by_spans [where U = rasterUtils and ok = rasterOk and T = stairFields
      and img = stairImage and currX = 1 and row = 1 and startX = 1 and endX = 1
      and parentY = "- 1" and q = "[]" and n = 16,
      THEN conjunct2, THEN conjunct2, THEN conjunct2, THEN conjunct1, THEN mp, OF hypA,
      unfolded stair_seed_row fst_conv snd_conv rowsA nc e2]
  note a2 = A [THEN conjunct1]
  note a3 = A [THEN conjunct2, THEN conjunct1]
  note a4 = A [THEN conjunct2, THEN conjunct2, THEN conjunct2]
  \<comment> \<open>behind the last column of the line of the seed, and the next line\<close>
  have pastB: "(2 :: int) = - 1 \<or> (1 :: int) < 2" by simp
  note b1 = fill_proceeds_by_spans [where U = rasterUtils and T = stairFields and img = stairSeedRow
      and n = 15 and pastX = 2 and endX = 1 and startX = 1 and row = 1 and parentY = "- 1"
      and q = "[(1, 1, 2, 1), (1, 1, 0, 1)]",
      THEN conjunct2, THEN conjunct2, THEN conjunct2, THEN conjunct2, THEN conjunct2, THEN conjunct1,
      THEN mp, OF pastB]
  note b2 = fill_proceeds_by_spans [where U = rasterUtils and T = stairFields and img = stairSeedRow
      and n = 14 and line = "(1, 1, 2, 1)" and q = "[(1, 1, 0, 1)]",
      THEN conjunct2, THEN conjunct1, unfolded fst_conv]
  \<comment> \<open>a queued line\<close>
  have okB: "rasterOk stairSeedRow" by (simp add: rasterOk_def stairSeedRow_def)
  have fitB: "fitsInt32 stairSeedRow" by (simp add: fitsInt32_def stairSeedRow_def)
  have irB: "inRaster stairSeedRow 1 2" by (simp add: inRaster_def stairSeedRow_def)
  have vB: "isValidTarget rasterUtils stairFields stairSeedRow (1, 2)"
    by (simp add: isValidTarget_def stairFields_def rasterUtils_def raster_getColorAtPixel_def
        stairSeedRow_def rgba_isSameColor_def colorDistance_def)
  have rowsB: "queuedRows stairSeedRow (1, 1, 2, 1) (1, 2) @ [(1, 1, 0, 1)] = [(1, 2, 1, 2), (1, 1, 0, 1)]"
    by (simp add: queuedRows_def rowsAboveAndBelow_def stairSeedRow_def)
  have hypB: "rasterLaw rasterUtils rasterOk \<and> rasterOk stairSeedRow \<and> fitsInt32 stairSeedRow \<and>
      inRaster stairSeedRow 1 2 \<and> (1 :: int) \<le> 1 \<and> isValidTarget rasterUtils stairFields stairSeedRow (1, 2)"
    using rasterLaw_rasterUtils okB fitB irB vB by simp
  note B = fill_proceeds_by_spans [where U = rasterUtils and ok = rasterOk and T = stairFields
      and img = stairSeedRow and currX = 1 and row = 2 and startX = 1 and endX = 1 and parentY = 1
      and q = "[(1, 1, 0, 1)]" and n = 13,
      THEN conjunct2, THEN conjunct2, THEN conjunct2, THEN conjunct1, THEN mp, OF hypB,
      unfolded stair_last_row fst_conv snd_conv rowsB nc e3]
  note b3 = B [THEN conjunct1]
  note b4 = B [THEN conjunct2, THEN conjunct1]
  note b5 = B [THEN conjunct2, THEN conjunct2, THEN conjunct2]
  \<comment> \<open>a column of a queued line that is painted already\<close>
  have nvC: "\<not> isValidTarget rasterUtils stairFields stairLastRow (1, 1)"
    by (simp add: isValidTarget_def stairFields_def rasterUtils_def raster_getColorAtPixel_def
        stairLastRow_def rgba_isSameColor_def colorDistance_def white_def redColor_def)
  have hypC: "(1 :: int) \<noteq> - 1 \<and> (1 :: int) \<le> 2 \<and> \<not> isValidTarget rasterUtils stairFields stairLastRow (1, 1)"
    using nvC by simp
  note c1 = fill_proceeds_by_spans [where U = rasterUtils and T = stairFields and img = stairLastRow
      and n = 10 and nextX = 1 and endX = 2 and startX = 1 and row = 1 and parentY = 2
      and q = "[(1, 1, 0, 1)]",
      THEN conjunct2, THEN conjunct2, THEN conjunct2, THEN conjunct2, THEN conjunct1,
      THEN mp, OF hypC, THEN conjunct2, unfolded e2]
  \<comment> \<open>the fill of index.js\<close>
  have wf: "wellFormed whiteRow" by (simp add: wellFormed_def whiteRow_def)
  have ib: "inBounds whiteRow 1 0" by (simp add: inBounds_def whiteRow_def)
  have ib0: "inBounds whiteRow 0 0" by (simp add: inBounds_def whiteRow_def)
  have ib2: "inBounds whiteRow 2 0" by (simp add: inBounds_def whiteRow_def)
  have gp: "getPixel whiteRow 1 0 = Some 4294967295" by code_simp
  have p0: "pixelAt whiteRow 0 0 = 4294967295" and p2: "pixelAt whiteRow 2 0 = 4294967295"
    by (simp_all add: pixelAt_def whiteRow_def)
  have hypD: "wellFormed whiteRow \<and> inBounds whiteRow 1 0 \<and> getPixel whiteRow 1 0 = Some 4294967295"
    using wf ib gp by simp
  note D = fill_proceeds_by_spans [where pd = whiteRow and sx = 1 and sy = 0
      and target = "Some 4294967295" and c = 4278190335 and st = "[]",
      THEN conjunct2, THEN conjunct2, THEN conjunct2, THEN conjunct2, THEN conjunct2, THEN conjunct2,
      THEN conjunct2, THEN mp, OF hypD]
  have d1: "snd (floodFill_step (Some 4294967295) 4278190335 whiteRow (1, 0) []) =
      [(1, - 1), (1, 1), (0, 0), (2, 0)]"
    using D [THEN conjunct1] by simp
  note d2 = D [THEN conjunct2, THEN conjunct2, rule_format]
  have d3: "pixelAt (fst (floodFill_step (Some 4294967295) 4278190335 whiteRow (1, 0) [])) 0 0 = 4294967295"
    using d2 [OF ib0] p0 by simp
  have d4: "pixelAt (fst (floodFill_step (Some 4294967295) 4278190335 whiteRow (1, 0) [])) 1 0 = 4278190335"
    using d2 [OF ib] by simp
  have d5: "pixelAt (fst (floodFill_step (Some 4294967295) 4278190335 whiteRow (1, 0) [])) 2 0 = 4294967295"
    using d2 [OF ib2] p2 by simp
  note full1 = stair_fill [THEN conjunct1]
  note full2 = stair_fill [THEN conjunct2]
  from ns sf a1 rasterLaw_rasterUtils okA fitA irA vA a2 a3 a4 b1 b2 okB fitB irB vB b3 b4 b5 nvC c1
    full1 full2 wf ib gp d1 d3 d4 d5
  show ?thesis by (intro conjI)
qed

text \<open>
  Claim C7. If the colour of the seed pixel and the new colour are the same within the
  tolerance, \<open>fill\<close> returns the image as it is, whatever the helpers are and without
  entering its loops; with the helpers of the specification that is the case when the
  distance of the two colours is at most the tolerance, and filling a pixel with its
  own colour leaves the image as it is for every tolerance (a negative one makes no
  pixel a valid target). \<open>floodFill\<close> of index.js, which has no tolerance and compares
  exactly, returns the canvas as it is when the seed pixel has the fill colour.
\<close>

theorem fill_with_indistinguishable_color_is_noop:
  "(isSameColor U (getColorAtPixel U img x y) (colorToRGBA U color) tol \<longrightarrow>
      fill fuel U img color x y tol = Some img) \<and>
   (real_of_int (colorDistance (raster_getColorAtPixel rimg x y) c) \<le> tol \<longrightarrow>
      fill fuel rasterUtils rimg c x y tol = Some rimg) \<and>
   fill (fuel + 4) rasterUtils rimg (raster_getColorAtPixel rimg x y) x y tol = Some rimg \<and>
   (wellFormed pd \<and> inBounds pd x y \<and> pixelAt pd x y = fillColor \<longrightarrow>
      floodFill fuel pd x y fillColor = Some pd)"
proof -
  have a: "fill fuel U img color x y tol = Some img"
    if "isSameColor U (getColorAtPixel U img x y) (colorToRGBA U color) tol"
    using that by (simp add: fill_def)
  have b: "fill fuel rasterUtils rimg c x y tol = Some rimg"
    if "real_of_int (colorDistance (raster_getColorAtPixel rimg x y) c) \<le> tol"
    using that by (simp add: fill_def rasterUtils_def rgba_isSameColor_def rgba_colorToRGBA_def)
  have c: "fill (fuel + 4) rasterUtils rimg (raster_getColorAtPixel rimg x y) x y tol = Some rimg"
  proof (cases "0 \<le> tol")
    case True
    have "colorDistance (raster_getColorAtPixel rimg x y) (raster_getColorAtPixel rimg x y) = 0"
      by (simp add: colorDistance_def)
    with True show ?thesis
      by (simp add: fill_def rasterUtils_def rgba_isSameColor_def rgba_colorToRGBA_def)
  next
    case False
    let ?C = "raster_getColorAtPixel rimg x y"
    let ?T = "\<lparr>replacedColor = ?C, newColor = ?C, tolerance = tol\<rparr>"
    have d0: "colorDistance ?C ?C = 0" by (simp add: colorDistance_def)
    have ns: "\<not> rgba_isSameColor ?C ?C tol" using False d0 by (simp add: rgba_isSameColor_def)
    have nv: "fillLineAt rasterUtils ?T rimg x y = ((- 1, - 1), rimg)"
      using ns by (simp add: fillLineAt_def isValidTarget_def rasterUtils_def)
    have e4: "fuel + 4 = Suc (Suc (Suc (Suc fuel)))" by simp
    have "fill (fuel + 4) rasterUtils rimg ?C x y tol =
        fillQueue (Suc (Suc (Suc (Suc fuel)))) rasterUtils ?T rimg [(x, x, y, - 1)] Popping"
      unfolding e4 using ns
      by (simp add: fill_def del: fillQueue.simps) (simp add: rasterUtils_def rgba_colorToRGBA_def del: fillQueue.simps)
    also have "\<dots> = fillQueue (Suc (Suc (Suc fuel))) rasterUtils ?T rimg [] (Scanning (x, x, y, - 1) x)"
      by (simp only: fillQueue.simps(3) fst_conv)
    also have "\<dots> = fillQueue (Suc fuel) rasterUtils ?T rimg [] Popping"
    proof (cases "x = - 1")
      case True
      have "fillQueue (Suc (Suc (Suc fuel))) rasterUtils ?T rimg [] (Scanning (x, x, y, - 1) x) =
          fillQueue (Suc (Suc fuel)) rasterUtils ?T rimg [] Popping"
        by (rule fillQueue_scan_done) (use True in simp)
      also have "\<dots> = Some rimg" by (simp only: fillQueue.simps(2))
      also have "\<dots> = fillQueue (Suc fuel) rasterUtils ?T rimg [] Popping"
        by (simp only: fillQueue.simps(2))
      finally show ?thesis .
    next
      case False
      have "fillQueue (Suc (Suc (Suc fuel))) rasterUtils ?T rimg [] (Scanning (x, x, y, - 1) x) =
          fillQueue (Suc (Suc fuel)) rasterUtils ?T rimg [] (Scanning (x, x, y, - 1) (x + 1))"
        by (rule fillQueue_scan_invalid [OF False order_refl nv])
      also have "\<dots> = fillQueue (Suc fuel) rasterUtils ?T rimg [] Popping"
        by (rule fillQueue_scan_done) simp
      finally show ?thesis .
    qed
    also have "\<dots> = Some rimg" by (simp only: fillQueue.simps(2))
    finally show ?thesis .
  qed
  have d: "floodFill fuel pd x y fillColor = Some pd"
    if "wellFormed pd \<and> inBounds pd x y \<and> pixelAt pd x y = fillColor"
    using that getPixel_inBounds [of pd x y] by (simp add: floodFill_def wellFormed_def)
  show ?thesis using a b c d by blast
qed

theorem fill_with_indistinguishable_color_is_noop_witness:
  "isSameColor rasterUtils (getColorAtPixel rasterUtils exampleImage 0 1) (colorToRGBA rasterUtils white) 0 \<and>
   fill 0 rasterUtils exampleImage white 0 1 0 = Some exampleImage \<and>
   wellFormed \<lparr>width = 2, height = 2, data = [7, 7, 7, 7]\<rparr> \<and>
   inBounds \<lparr>width = 2, height = 2, data = [7, 7, 7, 7]\<rparr> 0 1 \<and>
   pixelAt \<lparr>width = 2, height = 2, data = [7, 7, 7, 7]\<rparr> 0 1 = 7 \<and>
   floodFill 0 \<lparr>width = 2, height = 2, data = [7, 7, 7, 7]\<rparr> 0 1 7 =
     Some \<lparr>width = 2, height = 2, data = [7, 7, 7, 7]\<rparr>"
proof -
  let ?pd = "\<lparr>width = 2, height = 2, data = [7, 7, 7, 7 :: 32 word]\<rparr>"
  have s: "isSameColor rasterUtils (getColorAtPixel rasterUtils exampleImage 0 1) (colorToRGBA rasterUtils white) 0"
    unfolding example_seed_color
    by (simp add: rasterUtils_def rgba_isSameColor_def rgba_colorToRGBA_def colorDistance_def)
  have h: "wellFormed ?pd" "inBounds ?pd 0 1" "pixelAt ?pd 0 1 = 7"
    by (simp_all add: wellFormed_def inBounds_def pixelAt_def)
  note r = fill_with_indistinguishable_color_is_noop
    [of rasterUtils exampleImage 0 1 white 0 0 exampleImage white ?pd 7]
  from r s have r1: "fill 0 rasterUtils exampleImage white 0 1 0 = Some exampleImage" by blast
  from r h have r2: "floodFill 0 ?pd 0 1 7 = Some ?pd" by blast
  from s r1 h r2 show ?thesis by (intro conjI)
qed

end
